theory Spec2Isabelle
  imports Complex_Main
begin

section \<open>Handwriting similarity: feature aggregation, scoring and diagnostics\<close>

text \<open>
  A shallow embedding of \<^verbatim>\<open>app/similarity/handwriting_similarity.py\<close>.

  Numbers: the source computes with Python floats and numpy float64. Two readings of
  them are used. What the scorer sums, where it clamps, its degenerate cases and its
  symmetry, and the numbers the feature extraction writes into a record, are stated over
  the real numbers: these statements are about the arithmetic the code writes down and
  do not depend on rounding. Whatever depends on rounding, underflow, overflow, the
  infinities or NaN (the range of the scorer's outputs, the anomaly detector and the
  page-variation analyzer) is stated over a model of IEEE 754 binary64, which is defined
  below. Counts (\<^verbatim>\<open>len\<close>, sums of ones, \<^verbatim>\<open>enumerate\<close> indices) are natural numbers.
\<close>

subsection \<open>Paragraph features and numpy helpers\<close>

text \<open>One dictionary appended to \<^verbatim>\<open>page_features\<close> by \<^verbatim>\<open>process_image\<close>.\<close>

record paragraph_feature =
  confidence :: real
  word_count :: nat
  symbol_density :: real
  line_breaks :: nat
  average_symbol_confidence :: real

text \<open>
  \<^verbatim>\<open>np.mean\<close> of a list. On the empty list numpy returns nan with a warning; the scorer
  only takes the mean of a non-empty list.
\<close>

definition np_mean :: "real list \<Rightarrow> real" where
  "np_mean xs = sum_list xs / real (length xs)"

text \<open>\<^verbatim>\<open>np.clip(x, lo, hi)\<close> is \<^verbatim>\<open>minimum(maximum(x, lo), hi)\<close>.\<close>

definition np_clip :: "real \<Rightarrow> real \<Rightarrow> real \<Rightarrow> real" where
  "np_clip x lo hi = min (max x lo) hi"

subsection \<open>Similarity Scorer\<close>

text \<open>Python truthiness of \<^verbatim>\<open>features[0]\<close>, read only after \<^verbatim>\<open>not features\<close> was false.\<close>

definition falsy_or_first_falsy :: "'a list list \<Rightarrow> bool" where
  "falsy_or_first_falsy features = (case features of [] \<Rightarrow> True | page # _ \<Rightarrow> page = [])"

definition compare_handwriting_features ::
  "paragraph_feature list list \<Rightarrow> paragraph_feature list list \<Rightarrow> real \<times> (string \<rightharpoonup> real)" where
  "compare_handwriting_features features1 features2 =
     (if falsy_or_first_falsy features1 \<or> falsy_or_first_falsy features2 then (0, Map.empty)
      else
        let flat_features1 = concat features1;
            flat_features2 = concat features2
        in if flat_features1 = [] \<or> flat_features2 = [] then (0, Map.empty)
        else
          let conf_sim = 1 - \<bar>np_mean (map confidence flat_features1)
                              - np_mean (map confidence flat_features2)\<bar>;
              symbol_density_sim = 1 - \<bar>np_mean (map symbol_density flat_features1)
                              - np_mean (map symbol_density flat_features2)\<bar>;
              line_break_sim = 1 - \<bar>np_mean (map (\<lambda>f. real (line_breaks f)) flat_features1)
                              - np_mean (map (\<lambda>f. real (line_breaks f)) flat_features2)\<bar>;
              avg_conf_sim = 1 - \<bar>np_mean (map average_symbol_confidence flat_features1)
                              - np_mean (map average_symbol_confidence flat_features2)\<bar>;
              feature_scores =
                [''confidence_similarity'' \<mapsto> np_clip conf_sim 0 1,
                 ''symbol_density_similarity'' \<mapsto> np_clip symbol_density_sim 0 1,
                 ''line_break_similarity'' \<mapsto> np_clip line_break_sim 0 1,
                 ''average_confidence_similarity'' \<mapsto> np_clip avg_conf_sim 0 1];
              similarity = 3 / 10 * conf_sim + 3 / 10 * symbol_density_sim
                           + 2 / 10 * line_break_sim + 2 / 10 * avg_conf_sim
          in (np_clip similarity 0 1, feature_scores))"

text \<open>
  The per-dimension similarity as the specification words it, before any clamping:
  one minus the distance of the two documents' means of a field.
\<close>

definition spec_dimension_similarity ::
  "(paragraph_feature \<Rightarrow> real) \<Rightarrow> paragraph_feature list \<Rightarrow> paragraph_feature list \<Rightarrow> real" where
  "spec_dimension_similarity field flat1 flat2 =
     1 - \<bar>np_mean (map field flat1) - np_mean (map field flat2)\<bar>"

text \<open>
  The composite score as the specification words it: the weighted sum of the four
  per-dimension similarities, each already clamped to the unit interval, clamped again.
\<close>

definition spec_composite_similarity ::
  "paragraph_feature list \<Rightarrow> paragraph_feature list \<Rightarrow> real" where
  "spec_composite_similarity flat1 flat2 =
     np_clip
       (3 / 10 * np_clip (spec_dimension_similarity confidence flat1 flat2) 0 1
        + 3 / 10 * np_clip (spec_dimension_similarity symbol_density flat1 flat2) 0 1
        + 2 / 10 * np_clip (spec_dimension_similarity (\<lambda>f. real (line_breaks f)) flat1 flat2) 0 1
        + 2 / 10 * np_clip (spec_dimension_similarity average_symbol_confidence flat1 flat2) 0 1)
       0 1"

text \<open>A document whose first page is empty although a later page has a paragraph.\<close>

definition doc_blank_first_page :: "paragraph_feature list list" where
  "doc_blank_first_page =
     [[], [\<lparr>confidence = 9 / 10, word_count = 3, symbol_density = 0, line_breaks = 1,
            average_symbol_confidence = 9 / 10\<rparr>]]"

text \<open>Two one-page, one-paragraph documents that differ only in their line-break count.\<close>

definition doc_no_breaks :: "paragraph_feature list list" where
  "doc_no_breaks =
     [[\<lparr>confidence = 9 / 10, word_count = 3, symbol_density = 0, line_breaks = 0,
        average_symbol_confidence = 9 / 10\<rparr>]]"

definition doc_two_breaks :: "paragraph_feature list list" where
  "doc_two_breaks =
     [[\<lparr>confidence = 9 / 10, word_count = 3, symbol_density = 0, line_breaks = 2,
        average_symbol_confidence = 9 / 10\<rparr>]]"

subsection \<open>Strings and decimal digits\<close>

text \<open>
  The strings the analyzer formats are the three dictionary keys, which are ASCII.
  \<^verbatim>\<open>str.replace\<close> with one-character arguments and \<^verbatim>\<open>str.title\<close> are modelled on ASCII
  letters; any other character is uncased, as it is for the keys.
\<close>

definition ascii_lowercase :: string where
  "ascii_lowercase = ''abcdefghijklmnopqrstuvwxyz''"

definition ascii_uppercase :: string where
  "ascii_uppercase = ''ABCDEFGHIJKLMNOPQRSTUVWXYZ''"









definition round_half_even :: "real \<Rightarrow> int" where
  "round_half_even x =
     (let n = \<lfloor>x\<rfloor>; r = x - of_int n
      in if r < 1 / 2 then n else if 1 / 2 < r then n + 1 else if even n then n else n + 1)"

subsection \<open>Feature extraction from a recognition response\<close>

text \<open>
  The part of the recognition service's JSON that \<^verbatim>\<open>process_image\<close> reads. A key that may
  be missing is an option; \<^verbatim>\<open>d.get(key, default)\<close> supplies the default. The type \<open>'c\<close> is
  the type of the characters of a Python string, and the character class behind
  \<^verbatim>\<open>str.isalnum\<close> is a parameter \<open>alnum\<close> of the functions below.
\<close>

datatype py_error = ZeroDivisionError | RequestFailed

record 'c symbol =
  symbol_text :: "'c list option"
  symbol_confidence :: "real option"
  symbol_break_type :: "'c list option"

text \<open>
  \<open>symbol_break_type\<close> is the result of
  \<^verbatim>\<open>symbol.get("property", {}).get("detectedBreak", {}).get("type")\<close>: \<open>None\<close> when a key on
  the path is missing. A word is its \<^verbatim>\<open>symbols\<close> entry, a block its \<^verbatim>\<open>paragraphs\<close> entry, a
  page its \<^verbatim>\<open>blocks\<close> entry, a text annotation its \<^verbatim>\<open>pages\<close> entry.
\<close>

type_synonym 'c word = "'c symbol list option"

record 'c text_paragraph =
  paragraph_confidence :: "real option"
  paragraph_words :: "'c word list option"

type_synonym 'c block = "'c text_paragraph list option"

type_synonym 'c annotated_page = "'c block list option"

type_synonym 'c text_annotation = "'c annotated_page list option"

text \<open>
  The response: its status code and, from its JSON body, the list under \<^verbatim>\<open>responses\<close>
  whose elements may hold a \<^verbatim>\<open>fullTextAnnotation\<close>.
\<close>

record 'c api_response =
  status_code :: int
  responses :: "'c text_annotation option list option"

definition get_or_empty :: "'a list option \<Rightarrow> 'a list" where
  "get_or_empty entry = (case entry of None \<Rightarrow> [] | Some xs \<Rightarrow> xs)"

definition get_or_zero :: "real option \<Rightarrow> real" where
  "get_or_zero entry = (case entry of None \<Rightarrow> 0 | Some x \<Rightarrow> x)"

text \<open>\<^verbatim>\<open>str.isalnum\<close>: at least one character, and every character alphanumeric.\<close>

definition py_isalnum :: "('c \<Rightarrow> bool) \<Rightarrow> 'c list \<Rightarrow> bool" where
  "py_isalnum alnum s = (s \<noteq> [] \<and> list_all alnum s)"

text \<open>Python's \<^verbatim>\<open>/\<close> on numbers raises on a zero divisor.\<close>

definition py_truediv :: "real \<Rightarrow> real \<Rightarrow> py_error + real" where
  "py_truediv x y = (if y = 0 then Inl ZeroDivisionError else Inr (x / y))"

text \<open>The generator clauses \<^verbatim>\<open>for word in words for symbol in word.get("symbols", [])\<close>.\<close>

definition symbols_of :: "'c word list \<Rightarrow> 'c symbol list" where
  "symbols_of words = concat (map get_or_empty words)"

text \<open>
  The dictionary appended for a paragraph with the non-empty word list \<open>words\<close>; its
  entries are evaluated in the order written, and a raised error ends the evaluation.
\<close>

definition paragraph_entry ::
  "('c \<Rightarrow> bool) \<Rightarrow> 'c text_paragraph \<Rightarrow> 'c word list \<Rightarrow> py_error + paragraph_feature" where
  "paragraph_entry alnum paragraph words =
     (case (if words \<noteq> []
            then py_truediv
                   (real (sum_list (map (\<lambda>symbol. 1 :: nat)
                      (filter (\<lambda>symbol. \<not> py_isalnum alnum (get_or_empty (symbol_text symbol)))
                         (symbols_of words)))))
                   (real (length words))
            else Inr 0) of
        Inl e \<Rightarrow> Inl e
      | Inr density \<Rightarrow>
          (case py_truediv
                  (sum_list (map (\<lambda>symbol. get_or_zero (symbol_confidence symbol))
                     (symbols_of words)))
                  (real (sum_list (map (\<lambda>symbol. 1 :: nat) (symbols_of words)))) of
             Inl e \<Rightarrow> Inl e
           | Inr average \<Rightarrow>
               Inr \<lparr>confidence = get_or_zero (paragraph_confidence paragraph),
                    word_count = length words,
                    symbol_density = density,
                    line_breaks = sum_list (map (\<lambda>symbol. 1 :: nat)
                      (filter (\<lambda>symbol. get_or_empty (symbol_break_type symbol) \<noteq> [])
                         (symbols_of words))),
                    average_symbol_confidence = average\<rparr>))"

text \<open>
  The three nested loops visit the paragraphs of all blocks of all pages in order.
\<close>

definition annotation_paragraphs :: "'c text_annotation \<Rightarrow> 'c text_paragraph list" where
  "annotation_paragraphs text_data =
     concat (map (\<lambda>page. concat (map get_or_empty (get_or_empty page)))
       (get_or_empty text_data))"

text \<open>The loop body: a paragraph with words appends its dictionary, or raises.\<close>

fun collect_features ::
  "('c \<Rightarrow> bool) \<Rightarrow> 'c text_paragraph list \<Rightarrow> py_error + paragraph_feature list" where
  "collect_features alnum [] = Inr []"
| "collect_features alnum (paragraph # rest) =
     (let words = get_or_empty (paragraph_words paragraph)
      in if words \<noteq> []
         then (case paragraph_entry alnum paragraph words of
                 Inl e \<Rightarrow> Inl e
               | Inr feature \<Rightarrow>
                   (case collect_features alnum rest of
                      Inl e \<Rightarrow> Inl e
                    | Inr features \<Rightarrow> Inr (feature # features)))
         else collect_features alnum rest)"

text \<open>
  \<^verbatim>\<open>process_image\<close>, from the outcome of the request on: \<open>Inl\<close> is an exception raised
  while the image is encoded or the request is made. Every exception inside the
  \<^verbatim>\<open>try\<close> block, also one raised in the loops, is caught and gives the empty list.
\<close>

definition process_image ::
  "('c \<Rightarrow> bool) \<Rightarrow> py_error + 'c api_response \<Rightarrow> paragraph_feature list" where
  "process_image alnum outcome =
     (case outcome of
        Inl e \<Rightarrow> []
      | Inr response \<Rightarrow>
          if status_code response \<noteq> 200 then []
          else (case responses response of
                  None \<Rightarrow> []
                | Some [] \<Rightarrow> []
                | Some (response_data # _) \<Rightarrow>
                    (case response_data of
                       None \<Rightarrow> []
                     | Some text_data \<Rightarrow>
                         (case collect_features alnum (annotation_paragraphs text_data) of
                            Inl e \<Rightarrow> []
                          | Inr page_features \<Rightarrow> page_features))))"

text \<open>
  \<^verbatim>\<open>extract_handwriting_features\<close>. The pool runs one \<^verbatim>\<open>process_image\<close> task per page and
  the result list is built by iterating \<^verbatim>\<open>as_completed(futures)\<close>, which yields the
  futures in the order in which they finish. That order is the scheduler's choice: it is
  the parameter \<open>completion_order\<close>, a permutation of the page indices. The recognition
  service is the parameter \<open>recognize\<close>.
\<close>

definition extract_handwriting_features ::
  "('c \<Rightarrow> bool) \<Rightarrow> ('img \<Rightarrow> py_error + 'c api_response) \<Rightarrow> nat list \<Rightarrow> 'img list
     \<Rightarrow> paragraph_feature list list" where
  "extract_handwriting_features alnum recognize completion_order images =
     map (\<lambda>i. process_image alnum (recognize (images ! i))) completion_order"

definition is_completion_order :: "nat list \<Rightarrow> 'img list \<Rightarrow> bool" where
  "is_completion_order completion_order images =
     (distinct completion_order \<and> set completion_order = {0..<length images})"

text \<open>Sample recognition data over ASCII characters.\<close>

definition ascii_alnum :: "char \<Rightarrow> bool" where
  "ascii_alnum c = (c \<in> set (ascii_lowercase @ ascii_uppercase @ ''0123456789''))"

definition sample_symbol :: "string \<Rightarrow> char symbol" where
  "sample_symbol t =
     \<lparr>symbol_text = Some t, symbol_confidence = Some (9 / 10), symbol_break_type = None\<rparr>"

text \<open>A paragraph of the one word \<^verbatim>\<open>a!\<close>, and a paragraph of one word without symbols.\<close>

definition paragraph_a_bang :: "char text_paragraph" where
  "paragraph_a_bang =
     \<lparr>paragraph_confidence = Some (9 / 10),
      paragraph_words = Some [Some [sample_symbol ''a'', sample_symbol ''!'']]\<rparr>"

definition paragraph_empty_word :: "char text_paragraph" where
  "paragraph_empty_word =
     \<lparr>paragraph_confidence = Some (9 / 10), paragraph_words = Some [Some []]\<rparr>"

definition response_of :: "char text_paragraph list \<Rightarrow> py_error + char api_response" where
  "response_of paragraphs =
     Inr \<lparr>status_code = 200, responses = Some [Some (Some [Some [Some paragraphs]])]\<rparr>"

text \<open>
  The symbol density as the specification words it: the fraction of the paragraph's
  symbols that are not alphanumeric.
\<close>

definition spec_symbol_density :: "('c \<Rightarrow> bool) \<Rightarrow> 'c word list \<Rightarrow> real" where
  "spec_symbol_density alnum words =
     real (length (filter (\<lambda>symbol. \<not> py_isalnum alnum (get_or_empty (symbol_text symbol)))
                     (symbols_of words)))
     / real (length (symbols_of words))"

text \<open>Two page images, given by what the service answers: a page of text and a failure.\<close>

definition sample_images :: "(py_error + char api_response) list" where
  "sample_images = [response_of [paragraph_a_bang], Inl RequestFailed]"

subsection \<open>Binary64 arithmetic\<close>

text \<open>
  Whether a page statistic is exactly zero, whether a deviation passes the strict
  threshold, which digit is printed and what a clamp returns for a value that is not a
  number are facts about IEEE 754 binary64, the arithmetic of Python floats and of
  \<^verbatim>\<open>numpy.float64\<close>. The anomaly detector, the page-variation analyzer and the range of the
  scorer's outputs are therefore modelled over a type of doubles: a finite value, the two
  infinities, or NaN. The two zeros are identified; the functions below never divide by
  a negative zero, because their only divisors are counts and standard deviations.
\<close>

datatype f64 = Finite real | PInf | MInf | NaN

text \<open>
  Rounding to nearest, ties to even. Every finite double is a whole multiple of
  \<open>2^-1074\<close>, so a magnitude is rounded in these units: a magnitude whose integer part has
  \<open>b\<close> bits keeps 53 significant bits, which means a spacing of \<open>2^(b - 53)\<close> units, and a
  spacing of one unit in the subnormal range. A rounded magnitude of \<open>2^1024\<close> (that is
  \<open>2^2098\<close> units) or more overflows to an infinity.
\<close>

fun bit_length :: "nat \<Rightarrow> nat" where
  "bit_length n = (if n = 0 then 0 else Suc (bit_length (n div 2)))"

declare bit_length.simps [simp del]

definition unit_exp :: nat where
  "unit_exp = 1074"

definition overflow_exp :: nat where
  "overflow_exp = 2098"

definition round_units :: "real \<Rightarrow> nat" where
  "round_units y =
     (let shift = bit_length (nat \<lfloor>y\<rfloor>) - 53
      in nat (round_half_even (y / 2 ^ shift)) * 2 ^ shift)"

definition fl :: "real \<Rightarrow> f64" where
  "fl x =
     (let m = round_units (\<bar>x\<bar> * 2 ^ unit_exp)
      in if 2 ^ overflow_exp \<le> m then (if 0 < x then PInf else MInf)
         else Finite (sgn x * real m / 2 ^ unit_exp))"

text \<open>The doubles: magnitudes of at most 53 significant bits, in units of \<open>2^-1074\<close>.\<close>

definition double_units :: "nat \<Rightarrow> bool" where
  "double_units k = (\<exists>m e. k = m * 2 ^ e \<and> m < 2 ^ 53)"

definition is_double :: "real \<Rightarrow> bool" where
  "is_double r = (\<exists>k. \<bar>r\<bar> * 2 ^ unit_exp = real k \<and> double_units k \<and> k < 2 ^ overflow_exp)"

text \<open>
  The operations: the exact result, rounded; and the IEEE rules for infinities and NaN.
  A finite non-zero value divided by zero is an infinity and zero divided by zero is NaN
  (numpy's scalar division warns and does not raise).
\<close>

fun fneg :: "f64 \<Rightarrow> f64" where
  "fneg (Finite x) = Finite (- x)"
| "fneg PInf = MInf"
| "fneg MInf = PInf"
| "fneg NaN = NaN"

fun fabs :: "f64 \<Rightarrow> f64" where
  "fabs (Finite x) = Finite \<bar>x\<bar>"
| "fabs PInf = PInf"
| "fabs MInf = PInf"
| "fabs NaN = NaN"

fun fadd :: "f64 \<Rightarrow> f64 \<Rightarrow> f64" where
  "fadd (Finite x) (Finite y) = fl (x + y)"
| "fadd NaN b = NaN"
| "fadd a NaN = NaN"
| "fadd PInf MInf = NaN"
| "fadd MInf PInf = NaN"
| "fadd PInf b = PInf"
| "fadd a PInf = PInf"
| "fadd MInf b = MInf"
| "fadd a MInf = MInf"

definition fsub :: "f64 \<Rightarrow> f64 \<Rightarrow> f64" where
  "fsub a b = fadd a (fneg b)"

fun fsgn :: "f64 \<Rightarrow> real" where
  "fsgn (Finite x) = sgn x"
| "fsgn PInf = 1"
| "fsgn MInf = - 1"
| "fsgn NaN = 0"

fun fmul :: "f64 \<Rightarrow> f64 \<Rightarrow> f64" where
  "fmul (Finite x) (Finite y) = fl (x * y)"
| "fmul NaN b = NaN"
| "fmul a NaN = NaN"
| "fmul a b =
     (if fsgn a * fsgn b = 0 then NaN else if 0 < fsgn a * fsgn b then PInf else MInf)"

fun fdiv :: "f64 \<Rightarrow> f64 \<Rightarrow> f64" where
  "fdiv (Finite x) (Finite y) =
     (if y = 0 then (if x = 0 then NaN else if 0 < x then PInf else MInf) else fl (x / y))"
| "fdiv NaN b = NaN"
| "fdiv a NaN = NaN"
| "fdiv (Finite x) b = Finite 0"
| "fdiv a (Finite y) = (if (0 \<le> y) = (a = PInf) then PInf else MInf)"
| "fdiv a b = NaN"

fun fsqrt :: "f64 \<Rightarrow> f64" where
  "fsqrt (Finite x) = (if x < 0 then NaN else fl (sqrt x))"
| "fsqrt PInf = PInf"
| "fsqrt MInf = NaN"
| "fsqrt NaN = NaN"

text \<open>The comparisons \<^verbatim>\<open><\<close> and \<^verbatim>\<open><=\<close>: false as soon as an operand is NaN.\<close>

fun f_less :: "f64 \<Rightarrow> f64 \<Rightarrow> bool" where
  "f_less (Finite x) (Finite y) = (x < y)"
| "f_less NaN b = False"
| "f_less a NaN = False"
| "f_less a MInf = False"
| "f_less MInf b = True"
| "f_less PInf b = False"
| "f_less a PInf = True"


text \<open>A count converted to a double.\<close>

definition f64_of_nat :: "nat \<Rightarrow> f64" where
  "f64_of_nat n = fl (real n)"




subsection \<open>Features and page statistics in binary64\<close>

text \<open>
  The feature dictionary with its float entries as doubles. Nothing in the source
  restricts them: a confidence is whatever number the response holds.
\<close>

record feature64 =
  confidence64 :: f64
  word_count64 :: nat
  symbol_density64 :: f64
  line_breaks64 :: nat
  average_symbol_confidence64 :: f64

text \<open>
  \<^verbatim>\<open>np.mean\<close> and \<^verbatim>\<open>np.std\<close> are built from numpy's sum of an array, \<^verbatim>\<open>np.add.reduce\<close>,
  whose order of additions depends on the length of the array. The sum is the parameter
  \<open>add_reduce\<close> of everything below, so the general statements hold for whatever order
  numpy uses. The mean is the sum divided by the count. The standard deviation is
  \<^verbatim>\<open>sqrt(sum((x - mean) * (x - mean)) / n)\<close>.
\<close>

definition np_mean64 :: "(f64 list \<Rightarrow> f64) \<Rightarrow> f64 list \<Rightarrow> f64" where
  "np_mean64 add_reduce xs = fdiv (add_reduce xs) (f64_of_nat (length xs))"

definition np_std64 :: "(f64 list \<Rightarrow> f64) \<Rightarrow> f64 list \<Rightarrow> f64" where
  "np_std64 add_reduce xs =
     (let arrmean = np_mean64 add_reduce xs;
          x = map (\<lambda>a. fsub a arrmean) xs;
          x2 = map (\<lambda>d. fmul d d) x
      in fsqrt (fdiv (add_reduce x2) (f64_of_nat (length xs))))"

text \<open>
  For an array of fewer than eight elements numpy adds the elements one after the other,
  starting from zero. The concrete pages below are evaluated with this sum; they have at
  most six paragraphs.
\<close>

definition sequential_sum :: "f64 list \<Rightarrow> f64" where
  "sequential_sum xs = foldl fadd (Finite 0) xs"

subsection \<open>Anomaly Detector\<close>

text \<open>
  The value stored under a dimension's key of an anomaly dictionary:
  \<^verbatim>\<open>{"value": ..., "mean": ..., "deviation": ...}\<close>.
\<close>

record dimension_entry =
  entry_value :: f64
  entry_mean :: f64
  entry_deviation :: f64

text \<open>
  The dictionary \<^verbatim>\<open>anomaly\<close>. A dimension's key is present exactly when its field is not
  \<open>None\<close>; \<^verbatim>\<open>paragraph_index\<close> and \<^verbatim>\<open>page_number\<close> are added to every dictionary that
  is appended.
\<close>

record anomaly =
  anomaly_confidence :: "dimension_entry option"
  anomaly_symbol_density :: "dimension_entry option"
  anomaly_line_breaks :: "dimension_entry option"
  paragraph_index :: nat
  page_number :: nat

text \<open>
  One of the three \<^verbatim>\<open>if abs(feature[d] - d_mean) > threshold * d_std\<close> blocks, with
  \<^verbatim>\<open>threshold = 2.0\<close>: the entry stored for the dimension, or nothing. The division is
  not guarded.
\<close>

definition flag_dimension :: "f64 \<Rightarrow> f64 \<Rightarrow> f64 \<Rightarrow> dimension_entry option" where
  "flag_dimension v dim_mean dim_std =
     (if f_less (fmul (Finite 2) dim_std) (fabs (fsub v dim_mean))
      then Some \<lparr>entry_value = v, entry_mean = dim_mean,
                 entry_deviation = fdiv (fabs (fsub v dim_mean)) dim_std\<rparr>
      else None)"

text \<open>The means and standard deviations computed before the loop.\<close>

record page_statistics =
  confidence_mean :: f64
  confidence_std :: f64
  symbol_density_mean :: f64
  symbol_density_std :: f64
  line_breaks_mean :: f64
  line_breaks_std :: f64

definition page_statistics_of :: "(f64 list \<Rightarrow> f64) \<Rightarrow> feature64 list \<Rightarrow> page_statistics" where
  "page_statistics_of add_reduce features =
     \<lparr>confidence_mean = np_mean64 add_reduce (map confidence64 features),
      confidence_std = np_std64 add_reduce (map confidence64 features),
      symbol_density_mean = np_mean64 add_reduce (map symbol_density64 features),
      symbol_density_std = np_std64 add_reduce (map symbol_density64 features),
      line_breaks_mean = np_mean64 add_reduce (map (\<lambda>f. f64_of_nat (line_breaks64 f)) features),
      line_breaks_std = np_std64 add_reduce (map (\<lambda>f. f64_of_nat (line_breaks64 f)) features)\<rparr>"

text \<open>
  The loop \<^verbatim>\<open>for i, feature in enumerate(features)\<close>, from index \<open>i\<close> on: a paragraph
  with at least one flagged dimension appends one dictionary.
\<close>

fun anomalies_from :: "page_statistics \<Rightarrow> nat \<Rightarrow> nat \<Rightarrow> feature64 list \<Rightarrow> anomaly list" where
  "anomalies_from st page_num i [] = []"
| "anomalies_from st page_num i (feature # rest) =
     (let c = flag_dimension (confidence64 feature) (confidence_mean st) (confidence_std st);
          s = flag_dimension (symbol_density64 feature) (symbol_density_mean st)
                (symbol_density_std st);
          l = flag_dimension (f64_of_nat (line_breaks64 feature)) (line_breaks_mean st)
                (line_breaks_std st)
      in (if c \<noteq> None \<or> s \<noteq> None \<or> l \<noteq> None
          then [\<lparr>anomaly_confidence = c, anomaly_symbol_density = s, anomaly_line_breaks = l,
                  paragraph_index = i, page_number = page_num + 1\<rparr>]
          else [])
         @ anomalies_from st page_num (Suc i) rest)"

definition detect_page_anomalies ::
  "(f64 list \<Rightarrow> f64) \<Rightarrow> feature64 list \<Rightarrow> nat \<Rightarrow> anomaly list" where
  "detect_page_anomalies add_reduce features page_num =
     anomalies_from (page_statistics_of add_reduce features) page_num 0 features"

text \<open>
  Sample pages. \<open>small_tenth\<close> is the double nearest to 0.1 (which is
  \<open>7205759403792794 / 2^56\<close>) times \<open>2^-600\<close>, about \<open>2.41e-182\<close>. A page of three
  paragraphs that all have this confidence, and a page of six paragraphs of which the
  last has six line breaks.
\<close>

definition small_exp :: nat where
  "small_exp = 656"

definition small_tenth :: real where
  "small_tenth = 7205759403792794 / 2 ^ small_exp"

definition sample64 :: "f64 \<Rightarrow> nat \<Rightarrow> feature64" where
  "sample64 c n =
     \<lparr>confidence64 = c, word_count64 = 4, symbol_density64 = Finite 0, line_breaks64 = n,
      average_symbol_confidence64 = c\<rparr>"

definition page_equal_confidence :: "feature64 list" where
  "page_equal_confidence =
     [sample64 (Finite small_tenth) 0, sample64 (Finite small_tenth) 0,
      sample64 (Finite small_tenth) 0]"

definition page_six_breaks :: "feature64 list" where
  "page_six_breaks =
     [sample64 (Finite 1) 0, sample64 (Finite 1) 0, sample64 (Finite 1) 0,
      sample64 (Finite 1) 0, sample64 (Finite 1) 0, sample64 (Finite 1) 6]"

subsection \<open>The scorer's outputs in binary64\<close>










subsection \<open>Page-Variation Analyzer\<close>



















section \<open>Properties\<close>

subsection \<open>Similarity Scorer\<close>


lemma compare_doc_examples:
  "compare_handwriting_features doc_no_breaks doc_two_breaks =
     (6 / 10,
      [''confidence_similarity'' \<mapsto> 1, ''symbol_density_similarity'' \<mapsto> 1,
       ''line_break_similarity'' \<mapsto> 0, ''average_confidence_similarity'' \<mapsto> 1])"
  by (simp add: compare_handwriting_features_def falsy_or_first_falsy_def doc_no_breaks_def
      doc_two_breaks_def np_mean_def np_clip_def Let_def)

lemma not_falsy_concat: "\<not> falsy_or_first_falsy features \<Longrightarrow> concat features \<noteq> []"
  by (cases features) (simp_all add: falsy_or_first_falsy_def)

lemma compare_regular:
  assumes "\<not> falsy_or_first_falsy features1" and "\<not> falsy_or_first_falsy features2"
  shows "compare_handwriting_features features1 features2 =
     (np_clip
        (3 / 10 * spec_dimension_similarity confidence (concat features1) (concat features2)
         + 3 / 10 * spec_dimension_similarity symbol_density (concat features1) (concat features2)
         + 2 / 10 * spec_dimension_similarity (\<lambda>f. real (line_breaks f))
                      (concat features1) (concat features2)
         + 2 / 10 * spec_dimension_similarity average_symbol_confidence
                      (concat features1) (concat features2)) 0 1,
      [''confidence_similarity'' \<mapsto>
         np_clip (spec_dimension_similarity confidence (concat features1) (concat features2)) 0 1,
       ''symbol_density_similarity'' \<mapsto>
         np_clip (spec_dimension_similarity symbol_density (concat features1) (concat features2)) 0 1,
       ''line_break_similarity'' \<mapsto>
         np_clip (spec_dimension_similarity (\<lambda>f. real (line_breaks f))
                    (concat features1) (concat features2)) 0 1,
       ''average_confidence_similarity'' \<mapsto>
         np_clip (spec_dimension_similarity average_symbol_confidence
                    (concat features1) (concat features2)) 0 1])"
proof -
  have c: "concat features1 \<noteq> []" "concat features2 \<noteq> []"
    using assms by (simp_all only: not_falsy_concat not_False_eq_True)
  show ?thesis
    unfolding compare_handwriting_features_def spec_dimension_similarity_def Let_def
    using assms c by (simp only: if_False simp_thms)
qed

lemma compare_degenerate:
  "falsy_or_first_falsy features1 \<or> falsy_or_first_falsy features2 \<Longrightarrow>
   compare_handwriting_features features1 features2 = (0, Map.empty)"
  by (simp add: compare_handwriting_features_def)

lemma concat_empty_falsy: "concat features = [] \<Longrightarrow> falsy_or_first_falsy features"
  by (cases features) (simp_all add: falsy_or_first_falsy_def)

text \<open>
  C1, as stated: outside the degenerate case the composite score is the clamped weighted
  sum of the four clamped per-dimension similarities. The source sums the similarities
  before they are clamped; with line-break means 0 and 2 the line-break similarity is -1,
  the source returns 0.6 and the stated formula gives 0.8.
\<close>

theorem composite_of_clamped_counterexample:
  "\<not> falsy_or_first_falsy doc_no_breaks \<and> \<not> falsy_or_first_falsy doc_two_breaks \<and>
   fst (compare_handwriting_features doc_no_breaks doc_two_breaks) = 6 / 10 \<and>
   spec_composite_similarity (concat doc_no_breaks) (concat doc_two_breaks) = 8 / 10 \<and>
   fst (compare_handwriting_features doc_no_breaks doc_two_breaks)
     \<noteq> spec_composite_similarity (concat doc_no_breaks) (concat doc_two_breaks)"
  by (simp add: compare_doc_examples)
     (simp add: falsy_or_first_falsy_def spec_composite_similarity_def
        spec_dimension_similarity_def doc_no_breaks_def doc_two_breaks_def np_mean_def np_clip_def)

text \<open>
  C1, amended: outside the degenerate case the composite score is the weighted sum
  (0.3, 0.3, 0.2, 0.2) of the four unclamped similarities \<open>1 - |mean1 - mean2|\<close> over the
  flattened documents, clamped to the unit interval; the sub-score mapping holds each
  similarity clamped to the unit interval.
\<close>

theorem composite_of_unclamped:
  assumes "features1 \<noteq> []" and "features2 \<noteq> []"
    and "hd features1 \<noteq> []" and "hd features2 \<noteq> []"
  shows "fst (compare_handwriting_features features1 features2) =
     np_clip
        (3 / 10 * spec_dimension_similarity confidence (concat features1) (concat features2)
         + 3 / 10 * spec_dimension_similarity symbol_density (concat features1) (concat features2)
         + 2 / 10 * spec_dimension_similarity (\<lambda>f. real (line_breaks f))
                      (concat features1) (concat features2)
         + 2 / 10 * spec_dimension_similarity average_symbol_confidence
                      (concat features1) (concat features2)) 0 1
   \<and> snd (compare_handwriting_features features1 features2) =
      [''confidence_similarity'' \<mapsto>
         np_clip (spec_dimension_similarity confidence (concat features1) (concat features2)) 0 1,
       ''symbol_density_similarity'' \<mapsto>
         np_clip (spec_dimension_similarity symbol_density (concat features1) (concat features2)) 0 1,
       ''line_break_similarity'' \<mapsto>
         np_clip (spec_dimension_similarity (\<lambda>f. real (line_breaks f))
                    (concat features1) (concat features2)) 0 1,
       ''average_confidence_similarity'' \<mapsto>
         np_clip (spec_dimension_similarity average_symbol_confidence
                    (concat features1) (concat features2)) 0 1]"
proof -
  have "\<not> falsy_or_first_falsy features1" "\<not> falsy_or_first_falsy features2"
    using assms by (cases features1; cases features2; simp add: falsy_or_first_falsy_def)+
  then show ?thesis
    by (simp only: compare_regular fst_conv snd_conv simp_thms)
qed

theorem composite_of_unclamped_witness:
  "doc_no_breaks \<noteq> [] \<and> doc_two_breaks \<noteq> [] \<and> hd doc_no_breaks \<noteq> [] \<and> hd doc_two_breaks \<noteq> [] \<and>
   fst (compare_handwriting_features doc_no_breaks doc_two_breaks) = 6 / 10 \<and>
   snd (compare_handwriting_features doc_no_breaks doc_two_breaks) ''line_break_similarity''
     = Some 0"
proof -
  have h: "doc_no_breaks \<noteq> []" "doc_two_breaks \<noteq> []"
    "hd doc_no_breaks \<noteq> []" "hd doc_two_breaks \<noteq> []"
    by (simp_all add: doc_no_breaks_def doc_two_breaks_def)
  show ?thesis
    using h composite_of_unclamped [OF h]
    by (simp add: spec_dimension_similarity_def doc_no_breaks_def doc_two_breaks_def
        np_mean_def np_clip_def)
qed

text \<open>
  C5: when either document has no pages, or an empty first page, or no paragraph on any
  page, the scorer returns the score 0.0 with the empty sub-score mapping. The function
  has no failing branch: it is total and returns this pair directly.
\<close>

theorem degenerate_gives_zero:
  assumes "features1 = [] \<or> features2 = []
           \<or> (\<exists>rest. features1 = [] # rest) \<or> (\<exists>rest. features2 = [] # rest)
           \<or> concat features1 = [] \<or> concat features2 = []"
  shows "compare_handwriting_features features1 features2 = (0, Map.empty)"
proof -
  have "falsy_or_first_falsy features1 \<or> falsy_or_first_falsy features2"
    using assms concat_empty_falsy [of features1] concat_empty_falsy [of features2]
    by (auto simp: falsy_or_first_falsy_def)
  then show ?thesis
    by (rule compare_degenerate)
qed

theorem degenerate_gives_zero_witness:
  "(\<exists>rest. doc_blank_first_page = [] # rest) \<and> concat doc_blank_first_page \<noteq> [] \<and>
   compare_handwriting_features doc_blank_first_page doc_two_breaks = (0, Map.empty) \<and>
   compare_handwriting_features doc_two_breaks [] = (0, Map.empty) \<and>
   compare_handwriting_features [[], []] doc_two_breaks = (0, Map.empty)"
proof -
  have h: "\<exists>rest. doc_blank_first_page = [] # rest"
    by (simp add: doc_blank_first_page_def)
  have c: "concat doc_blank_first_page \<noteq> []"
    by (simp add: doc_blank_first_page_def)
  show ?thesis
    using h c degenerate_gives_zero [of doc_blank_first_page doc_two_breaks]
      degenerate_gives_zero [of doc_two_breaks "[]"]
      degenerate_gives_zero [of "[[], []]" doc_two_breaks]
    by simp
qed

text \<open>
  C7: swapping the two documents changes neither the composite score nor the sub-score
  mapping.
\<close>

theorem compare_symmetric:
  "compare_handwriting_features features1 features2
     = compare_handwriting_features features2 features1"
proof -
  have "\<bar>a - b\<bar> = \<bar>b - a\<bar>" for a b :: real
    by (rule abs_minus_commute)
  then have "spec_dimension_similarity field xs ys = spec_dimension_similarity field ys xs"
    for field xs ys
    by (simp add: spec_dimension_similarity_def)
  then have d: "spec_dimension_similarity field (concat features1) (concat features2)
      = spec_dimension_similarity field (concat features2) (concat features1)" for field
    by simp
  show ?thesis
  proof (cases "falsy_or_first_falsy features1 \<or> falsy_or_first_falsy features2")
    case True
    then have "falsy_or_first_falsy features2 \<or> falsy_or_first_falsy features1"
      by blast
    with True show ?thesis
      by (simp only: compare_degenerate)
  next
    case False
    then have r: "\<not> falsy_or_first_falsy features1" "\<not> falsy_or_first_falsy features2"
      by simp_all
    show ?thesis
      unfolding compare_regular [OF r] compare_regular [OF r(2) r(1)]
      by (simp only: d [of confidence] d [of symbol_density] d [of average_symbol_confidence]
          d [of "\<lambda>f. real (line_breaks f)"])
  qed
qed

subsection \<open>Rounding to binary64\<close>

lemma rhe_le: "z \<le> of_int n \<Longrightarrow> round_half_even z \<le> n"
  unfolding round_half_even_def Let_def by (auto; linarith)

lemma rhe_ge: "of_int n \<le> z \<Longrightarrow> n \<le> round_half_even z"
  unfolding round_half_even_def Let_def by (auto; linarith)

lemma rhe_int: "round_half_even (of_int n) = n"
  unfolding round_half_even_def Let_def by simp

lemma rhe_gt_half: "of_int n + 1 / 2 < z \<Longrightarrow> n + 1 \<le> round_half_even z"
  unfolding round_half_even_def Let_def by (auto; linarith)



lemma bit_length_0: "bit_length 0 = 0"
  by (simp add: bit_length.simps)

lemma bit_length_less: "n < 2 ^ bit_length n"
proof (induction n rule: bit_length.induct)
  case (1 n)
  show ?case
  proof (cases "n = 0")
    case True
    then show ?thesis by (simp add: bit_length.simps)
  next
    case False
    with 1 have "n div 2 < 2 ^ bit_length (n div 2)" by simp
    then have "n < 2 * 2 ^ bit_length (n div 2)" by linarith
    with False show ?thesis by (subst bit_length.simps) simp
  qed
qed

lemma bit_length_ge: "0 < n \<Longrightarrow> 2 ^ (bit_length n - 1) \<le> n"
proof (induction n rule: bit_length.induct)
  case (1 n)
  show ?case
  proof (cases "n div 2 = 0")
    case True
    with 1(2) have "n = 1" by linarith
    then show ?thesis by (simp add: bit_length.simps)
  next
    case False
    with 1 have ih: "2 ^ (bit_length (n div 2) - 1) \<le> n div 2" by simp
    have pos: "0 < bit_length (n div 2)"
      using False by (subst bit_length.simps) simp
    have "bit_length n = Suc (bit_length (n div 2))"
      using 1(2) by (subst bit_length.simps) simp
    then have "(2::nat) ^ (bit_length n - 1) = 2 * 2 ^ (bit_length (n div 2) - 1)"
      using pos by (cases "bit_length (n div 2)") simp_all
    with ih show ?thesis by linarith
  qed
qed

lemma bit_length_le: "n < 2 ^ w \<Longrightarrow> bit_length n \<le> w"
proof (rule ccontr)
  assume n: "n < 2 ^ w" and "\<not> bit_length n \<le> w"
  then have w: "w \<le> bit_length n - 1" by simp
  then have "0 < n" using \<open>\<not> bit_length n \<le> w\<close> by (cases "n = 0") (simp_all add: bit_length_0)
  from bit_length_ge [OF this] have "2 ^ (bit_length n - 1) \<le> n" .
  moreover have "(2::nat) ^ w \<le> 2 ^ (bit_length n - 1)" using w by (simp add: power_increasing)
  ultimately show False using n by linarith
qed

lemma shift_upper:
  fixes y :: real
  assumes "0 \<le> y"
  shows "y < 2 ^ (53 + (bit_length (nat \<lfloor>y\<rfloor>) - 53))"
proof -
  let ?b = "bit_length (nat \<lfloor>y\<rfloor>)"
  have "nat \<lfloor>y\<rfloor> < 2 ^ ?b"
    by (rule bit_length_less)
  then have "\<lfloor>y\<rfloor> < 2 ^ ?b"
    using assms by (simp add: nat_less_iff)
  then have "y < 2 ^ ?b"
    by (simp add: floor_less_iff)
  moreover have "(2::real) ^ ?b \<le> 2 ^ (53 + (?b - 53))"
    by (rule power_increasing) simp_all
  ultimately show ?thesis
    by linarith
qed

lemma shift_lower:
  fixes y :: real
  assumes "0 \<le> y" and "0 < bit_length (nat \<lfloor>y\<rfloor>) - 53"
  shows "2 ^ (52 + (bit_length (nat \<lfloor>y\<rfloor>) - 53)) \<le> y"
proof -
  let ?n = "nat \<lfloor>y\<rfloor>"
  let ?b = "bit_length ?n"
  have b: "52 + (?b - 53) = ?b - 1"
    using assms(2) by simp
  have "0 < ?n"
    using assms(2) by (cases "?n = 0") (simp_all add: bit_length_0)
  from bit_length_ge [OF this] have "real (2 ^ (?b - 1)) \<le> real ?n"
    by (simp only: of_nat_le_iff)
  also have "real ?n \<le> y"
    using assms(1) by simp
  finally show ?thesis
    using b by simp
qed

lemma round_units_double:
  assumes "0 \<le> y"
  shows "double_units (round_units y)"
proof -
  define sh where "sh = bit_length (nat \<lfloor>y\<rfloor>) - 53"
  define M where "M = nat (round_half_even (y / 2 ^ sh))"
  have ru: "round_units y = M * 2 ^ sh"
    by (simp add: round_units_def sh_def M_def Let_def)
  have "y < 2 ^ (53 + sh)"
    unfolding sh_def using assms by (rule shift_upper)
  then have "y / 2 ^ sh \<le> of_int (2 ^ 53)"
    by (simp add: power_add field_simps)
  then have "round_half_even (y / 2 ^ sh) \<le> 2 ^ 53"
    by (rule rhe_le)
  then have M: "M \<le> 2 ^ 53"
    by (simp add: M_def)
  show ?thesis
  proof (cases "M < 2 ^ 53")
    case True
    with ru show ?thesis
      unfolding double_units_def by blast
  next
    case False
    with M have "M = 2 ^ 53" by simp
    then have "round_units y = 1 * 2 ^ (53 + sh)"
      using ru by (simp add: power_add)
    moreover have "(1::nat) < 2 ^ 53" by simp
    ultimately show ?thesis
      unfolding double_units_def by blast
  qed
qed

lemma round_units_exact:
  assumes "double_units k"
  shows "round_units (real k) = k"
proof -
  from assms obtain m e where k: "k = m * 2 ^ e" and m: "m < 2 ^ 53"
    unfolding double_units_def by blast
  define sh where "sh = bit_length k - 53"
  have "k < 2 ^ (53 + e)"
    using m by (simp add: k power_add)
  then have "bit_length k \<le> 53 + e"
    by (rule bit_length_le)
  then have sh: "sh \<le> e"
    by (simp add: sh_def)
  then obtain d where d: "e = sh + d"
    using le_Suc_ex by blast
  define N where "N = m * 2 ^ (e - sh)"
  have "real k / 2 ^ sh = of_int (int N)"
    by (simp add: k d power_add N_def)
  then have "round_half_even (real k / 2 ^ sh) = int N"
    by (simp only: rhe_int)
  then have "nat (round_half_even (real k / 2 ^ sh)) * 2 ^ sh = N * 2 ^ sh"
    by simp
  also have "\<dots> = k"
    by (simp add: k d power_add N_def)
  finally show ?thesis
    by (simp add: round_units_def sh_def Let_def)
qed

lemma round_units_le:
  assumes "double_units K" and "0 \<le> y" and "y \<le> real K"
  shows "round_units y \<le> K"
proof -
  from assms(1) obtain m e where K: "K = m * 2 ^ e" and m: "m < 2 ^ 53"
    unfolding double_units_def by blast
  define sh where "sh = bit_length (nat \<lfloor>y\<rfloor>) - 53"
  have ru: "round_units y = nat (round_half_even (y / 2 ^ sh)) * 2 ^ sh"
    by (simp add: round_units_def sh_def Let_def)
  show ?thesis
  proof (cases "sh \<le> e")
    case True
    then obtain d where d: "e = sh + d"
      using le_Suc_ex by blast
    define N where "N = m * 2 ^ (e - sh)"
    have Kd: "K = N * 2 ^ sh"
      by (simp add: K d power_add N_def)
    have "real K / 2 ^ sh = of_int (int N)"
      by (simp add: K d power_add N_def)
    moreover have "y / 2 ^ sh \<le> real K / 2 ^ sh"
      using assms(3) by (simp add: divide_right_mono)
    ultimately have "round_half_even (y / 2 ^ sh) \<le> int N"
      by (simp only: rhe_le)
    then have "nat (round_half_even (y / 2 ^ sh)) \<le> N"
      by simp
    then have "nat (round_half_even (y / 2 ^ sh)) * 2 ^ sh \<le> N * 2 ^ sh"
      by (rule mult_le_mono1)
    then show ?thesis
      using ru Kd by simp
  next
    case False
    then have pos: "0 < bit_length (nat \<lfloor>y\<rfloor>) - 53" and e: "53 + e \<le> 52 + sh"
      by (simp_all add: sh_def)
    from shift_lower [OF assms(2) pos] have "2 ^ (52 + sh) \<le> y"
      by (simp add: sh_def)
    moreover have "real K < 2 ^ (53 + e)"
    proof -
      have "K < 2 ^ (53 + e)" using m by (simp add: K power_add)
      then have "real K < real (2 ^ (53 + e))" by (simp only: of_nat_less_iff)
      then show ?thesis by simp
    qed
    moreover have "(2::real) ^ (53 + e) \<le> 2 ^ (52 + sh)"
      using e by (simp only: power_increasing one_le_numeral)
    ultimately show ?thesis
      using assms(3) by linarith
  qed
qed

lemma round_units_ge:
  assumes "double_units K" and "real K \<le> y"
  shows "K \<le> round_units y"
proof -
  from assms(1) obtain m e where K: "K = m * 2 ^ e" and m: "m < 2 ^ 53"
    unfolding double_units_def by blast
  have y: "0 \<le> y" using assms(2) by (meson of_nat_0_le_iff order_trans)
  define sh where "sh = bit_length (nat \<lfloor>y\<rfloor>) - 53"
  have ru: "round_units y = nat (round_half_even (y / 2 ^ sh)) * 2 ^ sh"
    by (simp add: round_units_def sh_def Let_def)
  show ?thesis
  proof (cases "sh \<le> e")
    case True
    then obtain d where d: "e = sh + d"
      using le_Suc_ex by blast
    define N where "N = m * 2 ^ (e - sh)"
    have Kd: "K = N * 2 ^ sh"
      by (simp add: K d power_add N_def)
    have "real K / 2 ^ sh = of_int (int N)"
      by (simp add: K d power_add N_def)
    moreover have "real K / 2 ^ sh \<le> y / 2 ^ sh"
      using assms(2) by (simp add: divide_right_mono)
    ultimately have "int N \<le> round_half_even (y / 2 ^ sh)"
      by (simp only: rhe_ge)
    then have "N \<le> nat (round_half_even (y / 2 ^ sh))"
      by simp
    then have "N * 2 ^ sh \<le> nat (round_half_even (y / 2 ^ sh)) * 2 ^ sh"
      by (rule mult_le_mono1)
    then show ?thesis
      using ru Kd by simp
  next
    case False
    then have pos: "0 < bit_length (nat \<lfloor>y\<rfloor>) - 53" and e: "53 + e \<le> 52 + sh"
      by (simp_all add: sh_def)
    from shift_lower [OF y pos] have "2 ^ (52 + sh) \<le> y"
      by (simp add: sh_def)
    then have "of_int (2 ^ 52) \<le> y / 2 ^ sh"
      by (simp add: power_add field_simps)
    then have "2 ^ 52 \<le> round_half_even (y / 2 ^ sh)"
      by (rule rhe_ge)
    then have "2 ^ 52 \<le> nat (round_half_even (y / 2 ^ sh))"
      by simp
    then have "2 ^ 52 * 2 ^ sh \<le> round_units y"
      unfolding ru by (rule mult_le_mono1)
    moreover have "K < 2 ^ (53 + e)"
      using m by (simp add: K power_add)
    moreover have "(2::nat) ^ (53 + e) \<le> 2 ^ (52 + sh)"
      using e by (simp only: power_increasing one_le_numeral)
    ultimately show ?thesis
      by (simp add: power_add)
  qed
qed

lemma double_units_gap:
  assumes "double_units a" and "double_units b" and "a < b"
  shows "a < (b - a) * 2 ^ 53"
proof -
  from assms(1) obtain ma ea where a: "a = ma * 2 ^ ea" and ma: "ma < 2 ^ 53"
    unfolding double_units_def by blast
  from assms(2) obtain mb eb where b: "b = mb * 2 ^ eb" and mb: "mb < 2 ^ 53"
    unfolding double_units_def by blast
  define e where "e = min ea eb"
  have da: "2 ^ e dvd a" and db: "2 ^ e dvd b"
    unfolding a b e_def by (simp_all add: le_imp_power_dvd)
  then have "2 ^ e dvd b - a"
    by (simp only: dvd_diff_nat)
  moreover have "0 < b - a"
    using assms(3) by simp
  ultimately have ge: "2 ^ e \<le> b - a"
    by (rule dvd_imp_le)
  have "a < 2 ^ 53 * 2 ^ e"
  proof (cases "ea \<le> eb")
    case True
    then have "e = ea" by (simp add: e_def)
    then show ?thesis using ma by (simp add: a)
  next
    case False
    then have "e = eb" by (simp add: e_def)
    moreover have "b < 2 ^ 53 * 2 ^ eb" using mb by (simp add: b)
    ultimately show ?thesis using assms(3) by simp
  qed
  also have "\<dots> \<le> (b - a) * 2 ^ 53"
    using ge by simp
  finally show ?thesis .
qed

lemma round_units_0: "round_units 0 = 0"
  by (simp add: round_units_def round_half_even_def)


lemma fl_units:
  "\<bar>sgn x * real (round_units (\<bar>x\<bar> * 2 ^ unit_exp)) / 2 ^ unit_exp\<bar> * 2 ^ unit_exp
     = real (round_units (\<bar>x\<bar> * 2 ^ unit_exp))"
proof (cases "x = 0")
  case True
  then show ?thesis by (simp add: round_units_0)
next
  case False
  then have "\<bar>sgn x\<bar> = 1" by (simp add: abs_sgn_eq)
  then show ?thesis by (simp add: abs_mult)
qed

lemma fl_Finite_is_double:
  assumes "fl x = Finite r"
  shows "is_double r"
proof -
  define m where "m = round_units (\<bar>x\<bar> * 2 ^ unit_exp)"
  from assms have lt: "m < 2 ^ overflow_exp" and r: "r = sgn x * real m / 2 ^ unit_exp"
    by (auto simp: fl_def Let_def m_def split: if_splits)
  have "\<bar>r\<bar> * 2 ^ unit_exp = real m"
    unfolding r m_def by (rule fl_units)
  moreover have "double_units m"
    unfolding m_def by (rule round_units_double) simp
  ultimately show ?thesis
    using lt unfolding is_double_def by blast
qed

lemma fl_exact:
  assumes "is_double r"
  shows "fl r = Finite r"
proof -
  from assms obtain k where k: "\<bar>r\<bar> * 2 ^ unit_exp = real k" and d: "double_units k"
    and lt: "k < 2 ^ overflow_exp"
    unfolding is_double_def by blast
  have "round_units (\<bar>r\<bar> * 2 ^ unit_exp) = k"
    unfolding k using d by (rule round_units_exact)
  moreover have "sgn r * real k / 2 ^ unit_exp = r"
  proof -
    have "real k / 2 ^ unit_exp = \<bar>r\<bar>"
      using k by (simp add: field_simps)
    then have "sgn r * real k / 2 ^ unit_exp = sgn r * \<bar>r\<bar>"
      by (simp only: times_divide_eq_right [symmetric])
    then show ?thesis
      by (simp add: sgn_mult_abs)
  qed
  ultimately show ?thesis
    using lt by (simp add: fl_def Let_def)
qed

lemma fl_neg: "fl (- x) = fneg (fl x)"
  by (simp add: fl_def Let_def sgn_minus round_units_0)

lemma is_double_neg: "is_double (- r) = is_double r"
  by (simp add: is_double_def)

lemma fl_le:
  assumes "is_double c" and "x \<le> c"
  shows "fl x = MInf \<or> (\<exists>r. fl x = Finite r \<and> r \<le> c)"
proof -
  from assms(1) obtain k where k: "\<bar>c\<bar> * 2 ^ unit_exp = real k" and d: "double_units k"
    and lt: "k < 2 ^ overflow_exp"
    unfolding is_double_def by blast
  define m where "m = round_units (\<bar>x\<bar> * 2 ^ unit_exp)"
  have flx: "fl x = (if 2 ^ overflow_exp \<le> m then (if 0 < x then PInf else MInf)
      else Finite (sgn x * real m / 2 ^ unit_exp))"
    by (simp add: fl_def Let_def m_def)
  show ?thesis
  proof (cases "0 < x")
    case True
    then have c: "0 < c" using assms(2) by simp
    have "\<bar>x\<bar> * 2 ^ unit_exp = x * 2 ^ unit_exp"
      using True by simp
    also have "\<dots> \<le> c * 2 ^ unit_exp"
      using assms(2) by (rule mult_right_mono) simp
    also have "\<dots> = real k"
      using k c by simp
    finally have "\<bar>x\<bar> * 2 ^ unit_exp \<le> real k" .
    then have mk: "m \<le> k"
      unfolding m_def by (intro round_units_le d) simp_all
    then have "\<not> 2 ^ overflow_exp \<le> m" using lt by simp
    then have "fl x = Finite (real m / 2 ^ unit_exp)"
      using True by (simp add: flx)
    moreover have "real m / 2 ^ unit_exp \<le> c"
    proof -
      have "real m \<le> real k" using mk by simp
      then have "real m / 2 ^ unit_exp \<le> real k / 2 ^ unit_exp"
        by (simp add: divide_right_mono)
      also have "real k / 2 ^ unit_exp = c"
        using k c by (simp add: field_simps)
      finally show ?thesis .
    qed
    ultimately show ?thesis by blast
  next
    case False
    then have x: "x \<le> 0" by simp
    show ?thesis
    proof (cases "2 ^ overflow_exp \<le> m")
      case True
      then show ?thesis using False by (simp add: flx)
    next
      case big: False
      then have f: "fl x = Finite (sgn x * real m / 2 ^ unit_exp)"
        by (simp add: flx)
      have "sgn x * real m / 2 ^ unit_exp \<le> c"
      proof (cases "0 \<le> c")
        case True
        have "sgn x * real m \<le> 0"
          using x by (simp add: mult_nonpos_nonneg sgn_real_def)
        then have "sgn x * real m / 2 ^ unit_exp \<le> 0"
          by (simp add: divide_nonpos_pos)
        with True show ?thesis by linarith
      next
        case False
        then have c: "c < 0" by simp
        then have xneg: "x < 0" using assms(2) by simp
        have "real k = (- c) * 2 ^ unit_exp"
          using k c by simp
        also have "\<dots> \<le> (- x) * 2 ^ unit_exp"
          using assms(2) by (intro mult_right_mono) simp_all
        also have "\<dots> = \<bar>x\<bar> * 2 ^ unit_exp"
          using xneg by simp
        finally have "real k \<le> \<bar>x\<bar> * 2 ^ unit_exp" .
        then have "k \<le> m"
          unfolding m_def by (intro round_units_ge d)
        then have "real k / 2 ^ unit_exp \<le> real m / 2 ^ unit_exp"
          by (simp add: divide_right_mono)
        moreover have "real k / 2 ^ unit_exp = - c"
          using k c by (simp add: field_simps)
        moreover have "sgn x = - 1"
          using xneg by simp
        ultimately show ?thesis by simp
      qed
      with f show ?thesis by blast
    qed
  qed
qed

lemma fl_ge:
  assumes "is_double c" and "c \<le> x"
  shows "fl x = PInf \<or> (\<exists>r. fl x = Finite r \<and> c \<le> r)"
proof -
  have "is_double (- c)" using assms(1) by (simp add: is_double_neg)
  moreover have "- x \<le> - c" using assms(2) by simp
  ultimately have "fl (- x) = MInf \<or> (\<exists>r. fl (- x) = Finite r \<and> r \<le> - c)"
    by (rule fl_le)
  then show ?thesis
    unfolding fl_neg by (cases "fl x") auto
qed

lemma bit_length_eq:
  assumes "2 ^ w \<le> n" and "n < 2 ^ Suc w"
  shows "bit_length n = Suc w"
proof -
  have "bit_length n \<le> Suc w"
    using assms(2) by (rule bit_length_le)
  moreover have "\<not> bit_length n \<le> w"
  proof
    assume "bit_length n \<le> w"
    then have "(2::nat) ^ bit_length n \<le> 2 ^ w"
      by (simp add: power_increasing)
    with bit_length_less [of n] assms(1) show False
      by linarith
  qed
  ultimately show ?thesis by simp
qed

lemma is_double_units:
  assumes "\<bar>r\<bar> * 2 ^ unit_exp = real (m * 2 ^ e)" and "m < 2 ^ 53"
    and "m * 2 ^ e < 2 ^ overflow_exp"
  shows "is_double r"
  unfolding is_double_def double_units_def using assms by blast

lemma is_double_0: "is_double 0"
  by (rule is_double_units [of 0 0 0]) simp_all

lemma is_double_1: "is_double 1"
  by (rule is_double_units [of 1 1 unit_exp]) (simp_all add: unit_exp_def overflow_exp_def)

lemma is_double_2: "is_double 2"
  by (rule is_double_units [of 2 1 "Suc unit_exp"]) (simp_all add: unit_exp_def overflow_exp_def)

lemma is_double_4: "is_double 4"
  by (rule is_double_units [of 4 1 "Suc (Suc unit_exp)"])
     (simp_all add: unit_exp_def overflow_exp_def)

lemma fl_0: "fl 0 = Finite 0"
  by (rule fl_exact [OF is_double_0])

lemma fl_underflow:
  assumes "\<bar>x\<bar> * 2 ^ unit_exp < 1 / 2"
  shows "fl x = Finite 0"
proof -
  define y where "y = \<bar>x\<bar> * 2 ^ unit_exp"
  have y: "0 \<le> y" "y < 1 / 2"
    using assms by (simp_all add: y_def)
  then have f: "\<lfloor>y\<rfloor> = 0"
    by (simp add: floor_eq_iff)
  then have "round_half_even y = 0"
    using y by (simp add: round_half_even_def)
  then have "round_units y = 0"
    by (simp add: round_units_def f bit_length_0)
  then show ?thesis
    by (simp add: fl_def y_def)
qed


text \<open>A quotient above \<open>2 + 2^-52\<close> rounds to a double above 2.\<close>

lemma fl_above_two:
  assumes "2 + 1 / 2 ^ 52 < q"
  shows "fl q = PInf \<or> (\<exists>r. fl q = Finite r \<and> 2 < r)"
proof (cases "4 \<le> q")
  case True
  from fl_ge [OF is_double_4 True] show ?thesis
    by force
next
  case False
  then have q4: "q < 4" by simp
  have qpos: "0 < q"
  proof -
    have "(0::real) < 2 + 1 / 2 ^ 52" by simp
    with assms show ?thesis by linarith
  qed
  define v where "v = unit_exp - 52"
  have u: "unit_exp = 52 + v"
    by (simp add: v_def unit_exp_def)
  define y where "y = q * (2 ^ 52 * 2 ^ v)"
  have yq: "\<bar>q\<bar> * 2 ^ unit_exp = y"
    using qpos by (simp add: y_def u power_add)
  have v: "(0::real) < 2 ^ v" by simp
  have lo: "(2 ^ 53 + 1) * 2 ^ v < y"
  proof -
    have "(2 + 1 / 2 ^ 52) * (2 ^ 52 * 2 ^ v) < q * (2 ^ 52 * 2 ^ v)"
      using assms by (rule mult_strict_right_mono) simp
    moreover have "(2 + 1 / 2 ^ 52) * (2 ^ 52 * 2 ^ v) = (2 ^ 53 + 1) * (2::real) ^ v"
      by simp
    ultimately show ?thesis by (simp only: y_def)
  qed
  have hi: "y < 2 ^ 54 * 2 ^ v"
  proof -
    have "q * (2 ^ 52 * 2 ^ v) < 4 * (2 ^ 52 * 2 ^ v)"
      using q4 by (rule mult_strict_right_mono) simp
    then show ?thesis by (simp add: y_def)
  qed
  have "2 ^ 53 * 2 ^ v \<le> (2 ^ 53 + 1) * (2::real) ^ v"
    by (rule mult_right_mono) simp_all
  with lo have "2 ^ 53 * 2 ^ v \<le> y"
    by linarith
  then have "of_int (2 ^ (53 + v)) \<le> y"
    by (simp add: power_add)
  then have "2 ^ (53 + v) \<le> \<lfloor>y\<rfloor>"
    by (simp only: le_floor_iff)
  then have n1: "2 ^ (53 + v) \<le> nat \<lfloor>y\<rfloor>"
    by (simp add: le_nat_iff)
  have "y < of_int (2 ^ Suc (53 + v))"
    using hi by (simp add: power_add)
  then have "\<lfloor>y\<rfloor> < 2 ^ Suc (53 + v)"
    by (simp only: floor_less_iff)
  then have n2: "nat \<lfloor>y\<rfloor> < 2 ^ Suc (53 + v)"
    by (simp add: nat_less_iff)
  have b: "bit_length (nat \<lfloor>y\<rfloor>) = Suc (53 + v)"
    using n1 n2 by (rule bit_length_eq)
  have sh: "bit_length (nat \<lfloor>y\<rfloor>) - 53 = Suc v"
    by (simp add: b)
  have "of_int (2 ^ 52) + 1 / 2 < y / 2 ^ Suc v"
  proof -
    have "(2 ^ 53 + 1) * 2 ^ v / 2 ^ Suc v < y / 2 ^ Suc v"
      using lo by (simp only: divide_strict_right_mono zero_less_power zero_less_numeral)
    moreover have "((2::real) ^ 53 + 1) * 2 ^ v / 2 ^ Suc v = of_int (2 ^ 52) + 1 / 2"
      by simp
    ultimately show ?thesis by (simp only:)
  qed
  then have "2 ^ 52 + 1 \<le> round_half_even (y / 2 ^ Suc v)"
    by (rule rhe_gt_half)
  then have "2 ^ 52 + 1 \<le> nat (round_half_even (y / 2 ^ Suc v))"
    by simp
  then have "(2 ^ 52 + 1) * 2 ^ Suc v \<le> nat (round_half_even (y / 2 ^ Suc v)) * 2 ^ Suc v"
    by (rule mult_le_mono1)
  then have m: "(2 ^ 52 + 1) * 2 ^ Suc v \<le> round_units y"
    by (simp only: round_units_def sh Let_def)
  have flq: "fl q = (if 2 ^ overflow_exp \<le> round_units y then PInf
      else Finite (real (round_units y) / 2 ^ unit_exp))"
    unfolding fl_def yq Let_def using qpos by simp
  show ?thesis
  proof (cases "2 ^ overflow_exp \<le> round_units y")
    case True
    then show ?thesis by (simp add: flq)
  next
    case False
    then have "fl q = Finite (real (round_units y) / 2 ^ unit_exp)"
      by (simp add: flq)
    moreover have "2 < real (round_units y) / 2 ^ unit_exp"
    proof -
      have "real ((2 ^ 52 + 1) * 2 ^ Suc v) \<le> real (round_units y)"
        using m by (simp only: of_nat_le_iff)
      then have "real ((2 ^ 52 + 1) * 2 ^ Suc v) / 2 ^ unit_exp
          \<le> real (round_units y) / 2 ^ unit_exp"
        by (simp only: divide_right_mono zero_le_power zero_le_numeral)
      moreover have "2 < real ((2 ^ 52 + 1) * 2 ^ Suc v) / 2 ^ unit_exp"
        by (simp add: u power_add)
      ultimately show ?thesis by linarith
    qed
    ultimately show ?thesis by blast
  qed
qed

lemma is_double_abs: "is_double \<bar>r\<bar> = is_double r"
  by (simp add: is_double_def)

lemma fl_nonneg:
  assumes "0 \<le> x"
  shows "fl x = PInf \<or> (\<exists>r. fl x = Finite r \<and> 0 \<le> r \<and> is_double r)"
  using fl_ge [OF is_double_0 assms] fl_Finite_is_double [of x] by auto

lemma fsqrt_cases:
  "fsqrt w = NaN \<or> fsqrt w = PInf \<or> (\<exists>r. fsqrt w = Finite r \<and> 0 \<le> r \<and> is_double r)"
proof (cases w)
  case (Finite x)
  then show ?thesis
    using fl_nonneg [of "sqrt x"] by auto
qed simp_all

lemma fadd_Finite_is_double: "fadd a b = Finite r \<Longrightarrow> is_double r"
  by (cases a; cases b) (auto dest: fl_Finite_is_double)

lemma fabs_fsub_cases:
  "fabs (fsub v m) = NaN \<or> fabs (fsub v m) = PInf
   \<or> (\<exists>d. fabs (fsub v m) = Finite d \<and> 0 \<le> d \<and> is_double d)"
proof (cases "fsub v m")
  case (Finite r)
  then have "is_double r"
    unfolding fsub_def by (rule fadd_Finite_is_double)
  with Finite show ?thesis
    by (simp add: is_double_abs)
qed simp_all

lemma fl_twice:
  assumes "is_double r" and "0 \<le> r"
  shows "fl (2 * r) = Finite (2 * r) \<or> fl (2 * r) = PInf"
proof (cases "r = 0")
  case True
  then show ?thesis by (simp add: fl_0)
next
  case False
  then have pos: "0 < r" using assms(2) by simp
  from assms(1) obtain k where k: "\<bar>r\<bar> * 2 ^ unit_exp = real k" and d: "double_units k"
    unfolding is_double_def by blast
  from d obtain m e where "k = m * 2 ^ e" and m: "m < 2 ^ 53"
    unfolding double_units_def by blast
  then have "2 * k = m * 2 ^ Suc e" by simp
  with m have d2: "double_units (2 * k)"
    unfolding double_units_def by blast
  have k2: "\<bar>2 * r\<bar> * 2 ^ unit_exp = real (2 * k)"
    using k by (simp add: abs_mult)
  show ?thesis
  proof (cases "2 * k < 2 ^ overflow_exp")
    case True
    with k2 d2 have "is_double (2 * r)"
      unfolding is_double_def by blast
    then show ?thesis by (simp add: fl_exact)
  next
    case False
    have "round_units (\<bar>2 * r\<bar> * 2 ^ unit_exp) = 2 * k"
      unfolding k2 using d2 by (rule round_units_exact)
    then have "fl (2 * r) = PInf"
      using False pos by (simp add: fl_def Let_def)
    then show ?thesis by simp
  qed
qed

lemma is_double_gap:
  assumes "is_double a" and "is_double b" and "0 \<le> a" and "a < b"
  shows "a < (b - a) * 2 ^ 53"
proof -
  from assms(1) obtain ka where ka: "\<bar>a\<bar> * 2 ^ unit_exp = real ka" and da: "double_units ka"
    unfolding is_double_def by blast
  from assms(2) obtain kb where kb: "\<bar>b\<bar> * 2 ^ unit_exp = real kb" and db: "double_units kb"
    unfolding is_double_def by blast
  have a: "a * 2 ^ unit_exp = real ka" and b: "b * 2 ^ unit_exp = real kb"
    using ka kb assms(3,4) by simp_all
  have "a * 2 ^ unit_exp < b * 2 ^ unit_exp"
    using assms(4) by (rule mult_strict_right_mono) simp
  then have lt: "ka < kb"
    unfolding a b by (simp only: of_nat_less_iff)
  from double_units_gap [OF da db lt] have "real ka < real ((kb - ka) * 2 ^ 53)"
    by (simp only: of_nat_less_iff)
  also have "real ((kb - ka) * 2 ^ 53) = (real kb - real ka) * 2 ^ 53"
    using lt by (simp add: of_nat_diff)
  finally have "a * 2 ^ unit_exp < (b * 2 ^ unit_exp - a * 2 ^ unit_exp) * 2 ^ 53"
    by (simp only: a b)
  then have "a * 2 ^ unit_exp < ((b - a) * 2 ^ 53) * 2 ^ unit_exp"
    by (simp add: algebra_simps)
  then show ?thesis
    by (simp only: mult_less_cancel_right_pos zero_less_power zero_less_numeral)
qed

lemma quotient_above_two:
  assumes "is_double s" and "is_double d" and "0 < s" and "2 * s < d"
    and "fl (2 * s) = Finite (2 * s)"
  shows "2 + 1 / 2 ^ 52 < d / s"
proof -
  have "is_double (2 * s)"
    using assms(5) by (rule fl_Finite_is_double)
  from is_double_gap [OF this assms(2) _ assms(4)] assms(3)
  have "2 * s < (d - 2 * s) * 2 ^ 53"
    by simp
  then have "2 * s / 2 ^ 53 < d - 2 * s"
    by (simp add: field_simps)
  then have "(2 + 1 / 2 ^ 52) * s < d"
    by (simp add: algebra_simps)
  then show ?thesis
    using assms(3) by (simp add: pos_less_divide_eq)
qed

lemma is_double_nat: "n < 2 ^ 53 \<Longrightarrow> is_double (real n)"
  by (rule is_double_units [of _ n unit_exp])
     (simp_all add: overflow_exp_def unit_exp_def power_add [symmetric, of 2 53 1074, simplified] )

lemma is_double_dyadic:
  assumes "m < 2 ^ 53" and "e \<le> unit_exp"
  shows "is_double (real m / 2 ^ e)"
proof -
  from assms(2) obtain d where d: "unit_exp = e + d"
    using le_Suc_ex by blast
  have "\<bar>real m / 2 ^ e\<bar> * 2 ^ unit_exp = real (m * 2 ^ d)"
    by (simp add: d power_add)
  moreover have "m * 2 ^ d < 2 ^ overflow_exp"
  proof -
    have "m * 2 ^ d < 2 ^ 53 * 2 ^ d"
      using assms(1) by simp
    also have "\<dots> = 2 ^ (53 + d)"
      by (simp add: power_add)
    also have "\<dots> < 2 ^ overflow_exp"
    proof (rule power_strict_increasing)
      show "53 + d < overflow_exp"
        using d by (simp add: overflow_exp_def unit_exp_def)
    qed simp
    finally show ?thesis .
  qed
  ultimately show ?thesis
    using assms(1) unfolding is_double_def double_units_def by blast
qed

lemma fl_numeral [simp]:
  "numeral k < (2::nat) ^ 53 \<Longrightarrow> fl (numeral k) = Finite (numeral k)"
  using fl_exact [OF is_double_nat [of "numeral k"]] by simp

lemma fl_0' [simp]: "fl 0 = Finite 0"
  by (rule fl_0)

lemma fl_1 [simp]: "fl 1 = Finite 1"
  by (rule fl_exact [OF is_double_1])

lemma fl_uminus [simp]: "fl (- x) = fneg (fl x)"
  by (rule fl_neg)

lemma is_double_quarter: "is_double (1 / 4)"
  using is_double_dyadic [of 1 2] by (simp add: unit_exp_def)

lemma is_double_half: "is_double (1 / 2)"
  using is_double_dyadic [of 1 1] by (simp add: unit_exp_def)

lemma fl_quarter [simp]: "fl (1 / 4) = Finite (1 / 4)"
  by (rule fl_exact [OF is_double_quarter])

lemma fl_half [simp]: "fl (1 / 2) = Finite (1 / 2)"
  by (rule fl_exact [OF is_double_half])

lemma is_double_nine_quarters: "is_double (9 / 4)"
  using is_double_dyadic [of 9 2] by (simp add: unit_exp_def)

lemma is_double_8: "is_double 8"
  using is_double_nat [of 8] by simp





lemma fl_scaled:
  assumes "2 ^ 52 \<le> x * 2 ^ k" and "x * 2 ^ k < 2 ^ 53" and "k \<le> unit_exp"
  shows "fl x = Finite (of_int (round_half_even (x * 2 ^ k)) / 2 ^ k)"
proof -
  from assms(3) obtain d where d: "unit_exp = k + d"
    using le_Suc_ex by blast
  define z where "z = x * 2 ^ k"
  have zpos: "0 < z"
    using assms(1) unfolding z_def by (rule less_le_trans [rotated]) simp
  then have xpos: "0 < x"
    unfolding z_def by (simp add: zero_less_mult_iff)
  then have ax: "\<bar>x\<bar> = x" by simp
  have y: "x * 2 ^ unit_exp = z * 2 ^ d"
    by (simp add: z_def d power_add)
  have "2 ^ 52 * 2 ^ d \<le> z * 2 ^ d"
    using assms(1) unfolding z_def by (rule mult_right_mono) simp
  then have "of_int (2 ^ (52 + d)) \<le> z * 2 ^ d"
    by (simp add: power_add)
  then have "2 ^ (52 + d) \<le> \<lfloor>z * 2 ^ d\<rfloor>"
    by (simp only: le_floor_iff)
  then have n1: "2 ^ (52 + d) \<le> nat \<lfloor>z * 2 ^ d\<rfloor>"
    by (simp add: le_nat_iff)
  have "z * 2 ^ d < 2 ^ 53 * 2 ^ d"
    using assms(2) unfolding z_def by (rule mult_strict_right_mono) simp
  then have "z * 2 ^ d < of_int (2 ^ Suc (52 + d))"
    by (simp add: power_add)
  then have "\<lfloor>z * 2 ^ d\<rfloor> < 2 ^ Suc (52 + d)"
    by (simp only: floor_less_iff)
  then have n2: "nat \<lfloor>z * 2 ^ d\<rfloor> < 2 ^ Suc (52 + d)"
    by (simp add: nat_less_iff)
  have b: "bit_length (nat \<lfloor>z * 2 ^ d\<rfloor>) = Suc (52 + d)"
    using n1 n2 by (rule bit_length_eq)
  have sh: "bit_length (nat \<lfloor>z * 2 ^ d\<rfloor>) - 53 = d"
    by (simp add: b)
  define M where "M = nat (round_half_even z)"
  have ru: "round_units (z * 2 ^ d) = M * 2 ^ d"
    unfolding round_units_def sh Let_def M_def by simp
  have "round_half_even z \<le> 2 ^ 53"
    by (rule rhe_le) (use assms(2) in \<open>simp add: z_def\<close>)
  then have "M \<le> 2 ^ 53"
    by (simp add: M_def)
  then have "M * 2 ^ d \<le> 2 ^ 53 * 2 ^ d"
    by (rule mult_le_mono1)
  also have "(2::nat) ^ 53 * 2 ^ d = 2 ^ (53 + d)"
    by (simp add: power_add)
  also have "(2::nat) ^ (53 + d) < 2 ^ overflow_exp"
  proof (rule power_strict_increasing)
    show "53 + d < overflow_exp"
      using d by (simp add: overflow_exp_def unit_exp_def)
  qed simp
  finally have lt: "M * 2 ^ d < 2 ^ overflow_exp" .
  have "0 \<le> round_half_even z"
    by (rule rhe_ge) (use zpos in simp)
  then have rM: "real M = of_int (round_half_even z)"
    by (simp add: M_def)
  have "fl x = Finite (real (M * 2 ^ d) / 2 ^ unit_exp)"
    unfolding fl_def ax y ru Let_def using lt xpos by simp
  also have "real (M * 2 ^ d) / 2 ^ unit_exp = of_int (round_half_even z) / 2 ^ k"
    by (simp add: d power_add rM)
  finally show ?thesis
    by (simp only: z_def)
qed

lemma fl_scaled_down:
  assumes "2 ^ 52 \<le> y / 2 ^ j" and "y / 2 ^ j < 2 ^ 53" and "j \<le> E" and "E \<le> unit_exp"
  shows "fl (y / 2 ^ E) = Finite (of_int (round_half_even (y / 2 ^ j)) * 2 ^ j / 2 ^ E)"
proof -
  from assms(3) obtain d where d: "E = j + d"
    using le_Suc_ex by blast
  have x: "y / 2 ^ E * 2 ^ d = y / 2 ^ j"
    by (simp add: d power_add)
  have "fl (y / 2 ^ E) = Finite (of_int (round_half_even (y / 2 ^ E * 2 ^ d)) / 2 ^ d)"
  proof (rule fl_scaled)
    show "2 ^ 52 \<le> y / 2 ^ E * 2 ^ d"
      using assms(1) by (simp only: x)
    show "y / 2 ^ E * 2 ^ d < 2 ^ 53"
      using assms(2) by (simp only: x)
    show "d \<le> unit_exp"
      using assms(4) d by simp
  qed
  then show ?thesis
    by (simp add: x) (simp add: d power_add)
qed

subsection \<open>Anomaly Detector\<close>

lemma flag_dimension_deviation:
  assumes "flag_dimension v m (fsqrt w) = Some e"
  shows "f_less (Finite 2) (entry_deviation e)"
proof -
  let ?D = "fabs (fsub v m)"
  let ?s = "fsqrt w"
  from assms have less: "f_less (fmul (Finite 2) ?s) ?D"
    and dev: "entry_deviation e = fdiv ?D ?s"
    by (auto simp: flag_dimension_def split: if_splits)
  from fsqrt_cases [of w] consider "?s = NaN" | "?s = PInf"
    | r where "?s = Finite r" "0 \<le> r" "is_double r"
    by blast
  then have "f_less (Finite 2) (fdiv ?D ?s)"
  proof cases
    case 1
    with less show ?thesis by (cases ?D) simp_all
  next
    case 2
    with less show ?thesis by (cases ?D) simp_all
  next
    case (3 r)
    from fabs_fsub_cases [of v m] consider "?D = NaN" | "?D = PInf"
      | d where "?D = Finite d" "0 \<le> d" "is_double d"
      by blast
    then show ?thesis
    proof cases
      case 1
      with less 3 show ?thesis by (cases "fl (2 * r)") simp_all
    next
      case 2
      with 3 show ?thesis by simp
    next
      case (3 d)
      note D = 3
      from less have l: "f_less (fl (2 * r)) (Finite d)"
        using \<open>?s = Finite r\<close> D by simp
      from fl_twice [OF \<open>is_double r\<close> \<open>0 \<le> r\<close>] l
      have t: "fl (2 * r) = Finite (2 * r)" and lt: "2 * r < d"
        by auto
      show ?thesis
      proof (cases "r = 0")
        case True
        with lt have "0 < d" by simp
        then show ?thesis
          using \<open>?s = Finite r\<close> D True by simp
      next
        case False
        then have pos: "0 < r" using \<open>0 \<le> r\<close> by simp
        from quotient_above_two [OF \<open>is_double r\<close> \<open>is_double d\<close> pos lt t]
        have "2 + 1 / 2 ^ 52 < d / r" .
        from fl_above_two [OF this] have "f_less (Finite 2) (fl (d / r))"
          by auto
        then show ?thesis
          using \<open>?s = Finite r\<close> D False by simp
      qed
    qed
  qed
  with dev show ?thesis by simp
qed

lemma sqrt_5_bounds: "2 \<le> sqrt 5" "sqrt 5 \<le> 9 / 4"
  by (rule real_le_rsqrt, simp) (rule real_le_lsqrt, simp_all add: power2_eq_square)

lemma fl_sqrt_5:
  obtains r where "fl (sqrt 5) = Finite r" and "2 \<le> r" and "r \<le> 9 / 4"
    and "fl (2 * r) = Finite (2 * r)"
proof -
  from fl_ge [OF is_double_2 sqrt_5_bounds(1)] fl_le [OF is_double_nine_quarters sqrt_5_bounds(2)]
  obtain r where r: "fl (sqrt 5) = Finite r" "2 \<le> r" "r \<le> 9 / 4"
    by auto
  then have d: "is_double r"
    using fl_Finite_is_double by blast
  have "2 * r \<le> 8" using r(3) by simp
  from fl_le [OF is_double_8 this] fl_twice [OF d] r(2)
  have "fl (2 * r) = Finite (2 * r)"
    by auto
  with r show ?thesis
    using that by blast
qed

lemma statistics_six_breaks:
  "page_statistics_of sequential_sum page_six_breaks =
     \<lparr>confidence_mean = Finite 1, confidence_std = Finite 0,
      symbol_density_mean = Finite 0, symbol_density_std = Finite 0,
      line_breaks_mean = Finite 1, line_breaks_std = fl (sqrt 5)\<rparr>"
  by (simp add: page_statistics_of_def page_six_breaks_def sample64_def np_std64_def
      np_mean64_def sequential_sum_def f64_of_nat_def fsub_def)

lemma detect_six_breaks:
  "detect_page_anomalies sequential_sum page_six_breaks 0 =
     [\<lparr>anomaly_confidence = None, anomaly_symbol_density = None,
       anomaly_line_breaks =
         Some \<lparr>entry_value = Finite 6, entry_mean = Finite 1,
               entry_deviation = fdiv (Finite 5) (fl (sqrt 5))\<rparr>,
       paragraph_index = 5, page_number = 1\<rparr>]"
proof -
  obtain r where r: "fl (sqrt 5) = Finite r" "2 \<le> r" "r \<le> 9 / 4"
    "fl (2 * r) = Finite (2 * r)"
    by (rule fl_sqrt_5)
  have f0: "flag_dimension (Finite 0) (Finite 1) (fl (sqrt 5)) = None"
    using r by (simp add: flag_dimension_def fsub_def)
  have f6: "flag_dimension (Finite 6) (Finite 1) (fl (sqrt 5))
      = Some \<lparr>entry_value = Finite 6, entry_mean = Finite 1,
              entry_deviation = fdiv (Finite 5) (fl (sqrt 5))\<rparr>"
    using r by (simp add: flag_dimension_def fsub_def)
  have c: "flag_dimension (Finite 1) (Finite 1) (Finite 0) = None"
    "flag_dimension (Finite 0) (Finite 0) (Finite 0) = None"
    by (simp_all add: flag_dimension_def fsub_def)
  show ?thesis
    unfolding detect_page_anomalies_def statistics_six_breaks
    by (simp add: page_six_breaks_def sample64_def f64_of_nat_def f0 f6 c)
qed

lemma anomalies_from_member:
  "a \<in> set (anomalies_from st page_num i features) \<Longrightarrow>
   \<exists>f \<in> set features.
     anomaly_confidence a
       = flag_dimension (confidence64 f) (confidence_mean st) (confidence_std st)
     \<and> anomaly_symbol_density a
       = flag_dimension (symbol_density64 f) (symbol_density_mean st) (symbol_density_std st)
     \<and> anomaly_line_breaks a
       = flag_dimension (f64_of_nat (line_breaks64 f)) (line_breaks_mean st) (line_breaks_std st)"
proof (induction features arbitrary: i)
  case Nil
  then show ?case by simp
next
  case (Cons f rest)
  let ?here = "\<lparr>anomaly_confidence
        = flag_dimension (confidence64 f) (confidence_mean st) (confidence_std st),
      anomaly_symbol_density
        = flag_dimension (symbol_density64 f) (symbol_density_mean st) (symbol_density_std st),
      anomaly_line_breaks
        = flag_dimension (f64_of_nat (line_breaks64 f)) (line_breaks_mean st) (line_breaks_std st),
      paragraph_index = i, page_number = page_num + 1\<rparr>"
  from Cons.prems
  have "a = ?here \<or> a \<in> set (anomalies_from st page_num (Suc i) rest)"
    by (simp add: Let_def split: if_splits) blast
  then show ?case
  proof
    assume "a = ?here"
    then show ?thesis
      by simp
  next
    assume "a \<in> set (anomalies_from st page_num (Suc i) rest)"
    from Cons.IH [OF this] show ?thesis
      by auto
  qed
qed

lemma np_std64_is_sqrt: "\<exists>w. np_std64 add_reduce xs = fsqrt w"
  unfolding np_std64_def Let_def by blast

text \<open>
  C10: in every record the detector produces, every dimension entry that is present
  records as its deviation the quotient of the absolute difference between the observed
  value and the page mean by the page's standard deviation of that dimension, and the
  recorded value is strictly greater than 2.0. All operations are those of binary64; the
  recorded value is plus infinity when the standard deviation is 0.0. The statement
  holds whatever the order in which numpy adds the elements of an array.
\<close>

theorem recorded_deviation_above_two:
  assumes "a \<in> set (detect_page_anomalies add_reduce features page_num)"
  shows "(\<forall>e. anomaly_confidence a = Some e \<longrightarrow>
            entry_deviation e
              = fdiv (fabs (fsub (entry_value e) (entry_mean e)))
                  (np_std64 add_reduce (map confidence64 features))
            \<and> f_less (Finite 2) (entry_deviation e))
   \<and> (\<forall>e. anomaly_symbol_density a = Some e \<longrightarrow>
            entry_deviation e
              = fdiv (fabs (fsub (entry_value e) (entry_mean e)))
                  (np_std64 add_reduce (map symbol_density64 features))
            \<and> f_less (Finite 2) (entry_deviation e))
   \<and> (\<forall>e. anomaly_line_breaks a = Some e \<longrightarrow>
            entry_deviation e
              = fdiv (fabs (fsub (entry_value e) (entry_mean e)))
                  (np_std64 add_reduce (map (\<lambda>f. f64_of_nat (line_breaks64 f)) features))
            \<and> f_less (Finite 2) (entry_deviation e))"
proof -
  have key: "entry_deviation e = fdiv (fabs (fsub (entry_value e) (entry_mean e))) (np_std64 add_reduce xs)
      \<and> f_less (Finite 2) (entry_deviation e)"
    if "flag_dimension v m (np_std64 add_reduce xs) = Some e" for v m xs e
  proof -
    obtain w where w: "np_std64 add_reduce xs = fsqrt w"
      using np_std64_is_sqrt by blast
    from that have "f_less (Finite 2) (entry_deviation e)"
      unfolding w by (rule flag_dimension_deviation)
    moreover from that
    have "entry_deviation e = fdiv (fabs (fsub (entry_value e) (entry_mean e))) (np_std64 add_reduce xs)"
      by (auto simp: flag_dimension_def split: if_splits)
    ultimately show ?thesis by simp
  qed
  from anomalies_from_member [OF assms [unfolded detect_page_anomalies_def]]
  obtain f where "f \<in> set features" and f:
    "anomaly_confidence a = flag_dimension (confidence64 f)
       (confidence_mean (page_statistics_of add_reduce features))
       (confidence_std (page_statistics_of add_reduce features))"
    "anomaly_symbol_density a = flag_dimension (symbol_density64 f)
       (symbol_density_mean (page_statistics_of add_reduce features))
       (symbol_density_std (page_statistics_of add_reduce features))"
    "anomaly_line_breaks a = flag_dimension (f64_of_nat (line_breaks64 f))
       (line_breaks_mean (page_statistics_of add_reduce features))
       (line_breaks_std (page_statistics_of add_reduce features))"
    by blast
  show ?thesis
  proof (intro conjI allI impI)
    fix e assume "anomaly_confidence a = Some e"
    with f(1) have "flag_dimension (confidence64 f)
        (np_mean64 add_reduce (map confidence64 features))
        (np_std64 add_reduce (map confidence64 features)) = Some e"
      by (simp add: page_statistics_of_def)
    from key [OF this]
    show "entry_deviation e = fdiv (fabs (fsub (entry_value e) (entry_mean e)))
        (np_std64 add_reduce (map confidence64 features))"
      and "f_less (Finite 2) (entry_deviation e)"
      by blast+
  next
    fix e assume "anomaly_symbol_density a = Some e"
    with f(2) have "flag_dimension (symbol_density64 f)
        (np_mean64 add_reduce (map symbol_density64 features))
        (np_std64 add_reduce (map symbol_density64 features)) = Some e"
      by (simp add: page_statistics_of_def)
    from key [OF this]
    show "entry_deviation e = fdiv (fabs (fsub (entry_value e) (entry_mean e)))
        (np_std64 add_reduce (map symbol_density64 features))"
      and "f_less (Finite 2) (entry_deviation e)"
      by blast+
  next
    fix e assume "anomaly_line_breaks a = Some e"
    with f(3) have "flag_dimension (f64_of_nat (line_breaks64 f))
        (np_mean64 add_reduce (map (\<lambda>f. f64_of_nat (line_breaks64 f)) features))
        (np_std64 add_reduce (map (\<lambda>f. f64_of_nat (line_breaks64 f)) features)) = Some e"
      by (simp add: page_statistics_of_def)
    from key [OF this]
    show "entry_deviation e = fdiv (fabs (fsub (entry_value e) (entry_mean e)))
        (np_std64 add_reduce (map (\<lambda>f. f64_of_nat (line_breaks64 f)) features))"
      and "f_less (Finite 2) (entry_deviation e)"
      by blast+
  qed
qed

text \<open>
  On the page of six paragraphs the last one is flagged for its line breaks: value 6,
  mean 1, and the deviation 5 divided by the double nearest to the square root of 5.
\<close>

theorem recorded_deviation_above_two_witness:
  "hd (detect_page_anomalies sequential_sum page_six_breaks 0)
     \<in> set (detect_page_anomalies sequential_sum page_six_breaks 0)
   \<and> anomaly_line_breaks (hd (detect_page_anomalies sequential_sum page_six_breaks 0))
       = Some \<lparr>entry_value = Finite 6, entry_mean = Finite 1,
               entry_deviation = fdiv (Finite 5) (fl (sqrt 5))\<rparr>
   \<and> f_less (Finite 2) (fdiv (Finite 5) (fl (sqrt 5)))"
proof -
  let ?a = "hd (detect_page_anomalies sequential_sum page_six_breaks 0)"
  have m: "?a \<in> set (detect_page_anomalies sequential_sum page_six_breaks 0)"
    by (simp add: detect_six_breaks)
  have l: "anomaly_line_breaks ?a
      = Some \<lparr>entry_value = Finite 6, entry_mean = Finite 1,
              entry_deviation = fdiv (Finite 5) (fl (sqrt 5))\<rparr>"
    by (simp add: detect_six_breaks)
  from recorded_deviation_above_two [OF m] l
  have "f_less (Finite 2) (entry_deviation \<lparr>entry_value = Finite 6, entry_mean = Finite 1,
      entry_deviation = fdiv (Finite 5) (fl (sqrt 5))\<rparr>)"
    by blast
  then show ?thesis
    using m l by simp
qed

lemma small_exp_le: "small_exp \<le> unit_exp"
  by (simp add: small_exp_def unit_exp_def)

lemma fl_small_1:
  "fl (7205759403792794 / 2 ^ small_exp) = Finite (7205759403792794 / 2 ^ small_exp)"
  by (subst fl_scaled_down [where j = 0])
     (simp_all add: round_half_even_def small_exp_le)

lemma fl_small_2:
  "fl (14411518807585588 / 2 ^ small_exp) = Finite (14411518807585588 / 2 ^ small_exp)"
  by (subst fl_scaled_down [where j = 1])
     (simp_all add: round_half_even_def small_exp_def unit_exp_def)

lemma fl_small_3:
  "fl (21617278211378382 / 2 ^ small_exp) = Finite (21617278211378384 / 2 ^ small_exp)"
  by (subst fl_scaled_down [where j = 2])
     (simp_all add: round_half_even_def small_exp_def unit_exp_def)

lemma fl_small_mean:
  "fl (21617278211378384 / (2 ^ small_exp * 3)) = Finite (7205759403792795 / 2 ^ small_exp)"
proof -
  have "fl (21617278211378384 / 3 / 2 ^ small_exp) = Finite (7205759403792795 / 2 ^ small_exp)"
    by (subst fl_scaled_down [where j = 0])
       (simp_all add: round_half_even_def small_exp_le)
  then show ?thesis
    by (simp add: mult.commute)
qed

lemma fl_small_ulp: "fl (1 / 2 ^ small_exp) = Finite (1 / 2 ^ small_exp)"
  using fl_exact [OF is_double_dyadic [of 1 small_exp]] by (simp add: small_exp_le)

lemma fl_small_square: "fl (1 / (2 ^ small_exp * 2 ^ small_exp)) = Finite 0"
proof (rule fl_underflow)
  have "\<bar>(1::real) / (2 ^ small_exp * 2 ^ small_exp)\<bar> * 2 ^ unit_exp = 1 / 2 ^ 238"
    by (simp add: small_exp_def unit_exp_def)
  also have "\<dots> < 1 / 2"
    by simp
  finally show "\<bar>(1::real) / (2 ^ small_exp * 2 ^ small_exp)\<bar> * 2 ^ unit_exp < 1 / 2" .
qed

lemma mean_equal:
  "np_mean64 sequential_sum [Finite small_tenth, Finite small_tenth, Finite small_tenth]
     = Finite (7205759403792795 / 2 ^ small_exp)"
  by (simp add: np_mean64_def sequential_sum_def f64_of_nat_def small_tenth_def
      fl_small_1 fl_small_2 fl_small_3 fl_small_mean)

lemma std_equal:
  "np_std64 sequential_sum [Finite small_tenth, Finite small_tenth, Finite small_tenth]
     = Finite 0"
  apply (simp add: np_std64_def mean_equal Let_def)
  apply (simp add: sequential_sum_def f64_of_nat_def small_tenth_def fsub_def
      fl_small_ulp fl_small_square)
  done

lemma detect_equal:
  "detect_page_anomalies sequential_sum page_equal_confidence 0 =
     [\<lparr>anomaly_confidence =
         Some \<lparr>entry_value = Finite small_tenth,
               entry_mean = Finite (7205759403792795 / 2 ^ small_exp), entry_deviation = PInf\<rparr>,
       anomaly_symbol_density = None, anomaly_line_breaks = None,
       paragraph_index = 0, page_number = 1\<rparr>,
      \<lparr>anomaly_confidence =
         Some \<lparr>entry_value = Finite small_tenth,
               entry_mean = Finite (7205759403792795 / 2 ^ small_exp), entry_deviation = PInf\<rparr>,
       anomaly_symbol_density = None, anomaly_line_breaks = None,
       paragraph_index = 1, page_number = 1\<rparr>,
      \<lparr>anomaly_confidence =
         Some \<lparr>entry_value = Finite small_tenth,
               entry_mean = Finite (7205759403792795 / 2 ^ small_exp), entry_deviation = PInf\<rparr>,
       anomaly_symbol_density = None, anomaly_line_breaks = None,
       paragraph_index = 2, page_number = 1\<rparr>]"
  unfolding detect_page_anomalies_def
  by (simp add: page_statistics_of_def page_equal_confidence_def sample64_def mean_equal
        std_equal)
     (simp add: np_std64_def np_mean64_def sequential_sum_def f64_of_nat_def fsub_def
        flag_dimension_def small_tenth_def fl_small_ulp Let_def)

text \<open>
  C4 does not hold of the code. On the page of three paragraphs that all have the
  confidence \<open>small_tenth\<close> the sum of the three values is rounded, so the computed mean
  is one unit in the last place above the common value; the squared differences
  underflow to 0.0 and the standard deviation of the confidences is 0.0. The strict test
  \<^verbatim>\<open>abs(v - mean) > 2.0 * 0.0\<close> holds for every paragraph, so every paragraph gets a
  record that cites the confidence, with the deviation plus infinity that the division
  by 0.0 gives.
\<close>

theorem zero_std_dimension_cited:
  "map confidence64 page_equal_confidence
     = [Finite small_tenth, Finite small_tenth, Finite small_tenth]
   \<and> np_std64 sequential_sum (map confidence64 page_equal_confidence) = Finite 0
   \<and> map anomaly_confidence (detect_page_anomalies sequential_sum page_equal_confidence 0)
     = [Some \<lparr>entry_value = Finite small_tenth,
              entry_mean = Finite (7205759403792795 / 2 ^ small_exp), entry_deviation = PInf\<rparr>,
        Some \<lparr>entry_value = Finite small_tenth,
              entry_mean = Finite (7205759403792795 / 2 ^ small_exp), entry_deviation = PInf\<rparr>,
        Some \<lparr>entry_value = Finite small_tenth,
              entry_mean = Finite (7205759403792795 / 2 ^ small_exp), entry_deviation = PInf\<rparr>]"
  by (simp add: detect_equal)
     (simp add: page_equal_confidence_def sample64_def std_equal)

subsection \<open>Range of the scorer's outputs\<close>

















subsection \<open>Page-Variation Analyzer\<close>



















subsection \<open>Feature extraction\<close>

lemma sum_list_ones: "sum_list (map (\<lambda>x. 1 :: nat) xs) = length xs"
  by (induction xs) simp_all

lemma sum_list_Suc_0: "sum_list (map (\<lambda>x. Suc 0) xs) = length xs"
  by (induction xs) simp_all

lemma entry_a_bang:
  "paragraph_entry ascii_alnum paragraph_a_bang [Some [sample_symbol ''a'', sample_symbol ''!'']]
     = Inr \<lparr>confidence = 9 / 10, word_count = 1, symbol_density = 1, line_breaks = 0,
            average_symbol_confidence = 9 / 10\<rparr>"
  by (simp add: paragraph_entry_def paragraph_a_bang_def sample_symbol_def symbols_of_def
      get_or_empty_def get_or_zero_def py_isalnum_def py_truediv_def ascii_alnum_def
      ascii_lowercase_def ascii_uppercase_def)

lemma entry_empty_word:
  "paragraph_entry ascii_alnum paragraph_empty_word [Some []] = Inl ZeroDivisionError"
  by (simp add: paragraph_entry_def symbols_of_def get_or_empty_def py_truediv_def)

lemma process_a_bang:
  "process_image ascii_alnum (response_of [paragraph_a_bang])
     = [\<lparr>confidence = 9 / 10, word_count = 1, symbol_density = 1, line_breaks = 0,
         average_symbol_confidence = 9 / 10\<rparr>]"
proof -
  have w: "get_or_empty (paragraph_words paragraph_a_bang)
      = [Some [sample_symbol ''a'', sample_symbol ''!'']]"
    by (simp add: paragraph_a_bang_def get_or_empty_def)
  have "annotation_paragraphs (Some [Some [Some [paragraph_a_bang]]]) = [paragraph_a_bang]"
    by (simp add: annotation_paragraphs_def get_or_empty_def)
  then show ?thesis
    by (simp add: process_image_def response_of_def w entry_a_bang)
qed

lemma process_a_bang_empty_word:
  "process_image ascii_alnum (response_of [paragraph_a_bang, paragraph_empty_word]) = []"
proof -
  have w: "get_or_empty (paragraph_words paragraph_a_bang)
      = [Some [sample_symbol ''a'', sample_symbol ''!'']]"
    "get_or_empty (paragraph_words paragraph_empty_word) = [Some []]"
    by (simp_all add: paragraph_a_bang_def paragraph_empty_word_def get_or_empty_def)
  have "annotation_paragraphs (Some [Some [Some [paragraph_a_bang, paragraph_empty_word]]])
      = [paragraph_a_bang, paragraph_empty_word]"
    by (simp add: annotation_paragraphs_def get_or_empty_def)
  then show ?thesis
    by (simp add: process_image_def response_of_def w entry_a_bang entry_empty_word)
qed

text \<open>
  C2, as stated: the symbol density of a paragraph with at least one word is the number
  of its non-alphanumeric symbols divided by the number of its symbols. The source
  divides by the number of words: for the one word \<^verbatim>\<open>a!\<close> it stores 1, and the stated
  fraction is one half.
\<close>

theorem symbol_density_per_symbol_counterexample:
  "get_or_empty (paragraph_words paragraph_a_bang) \<noteq> []
   \<and> map symbol_density (process_image ascii_alnum (response_of [paragraph_a_bang])) = [1]
   \<and> spec_symbol_density ascii_alnum (get_or_empty (paragraph_words paragraph_a_bang)) = 1 / 2"
  by (simp add: process_a_bang)
     (simp add: spec_symbol_density_def paragraph_a_bang_def sample_symbol_def symbols_of_def
        get_or_empty_def py_isalnum_def ascii_alnum_def ascii_lowercase_def ascii_uppercase_def)

text \<open>
  C2, amended: for a paragraph with at least one word, the symbol density of the record
  the extractor builds is the number of its symbols whose text is not alphanumeric,
  divided by the number of its words; the record is built whenever the paragraph has at
  least one symbol.
\<close>

theorem symbol_density_per_word:
  assumes "words \<noteq> []"
  shows "(\<forall>f. paragraph_entry alnum paragraph words = Inr f \<longrightarrow>
            symbol_density f
              = real (length (filter
                    (\<lambda>symbol. \<not> py_isalnum alnum (get_or_empty (symbol_text symbol)))
                    (symbols_of words)))
                / real (length words))
   \<and> (symbols_of words \<noteq> [] \<longrightarrow> (\<exists>f. paragraph_entry alnum paragraph words = Inr f))"
  using assms
  by (auto simp: paragraph_entry_def py_truediv_def sum_list_ones sum_list_Suc_0
      split: sum.splits if_splits)

theorem symbol_density_per_word_witness:
  "[Some [sample_symbol ''a'', sample_symbol ''!'']] \<noteq> []
   \<and> symbols_of [Some [sample_symbol ''a'', sample_symbol ''!'']] \<noteq> []
   \<and> paragraph_entry ascii_alnum paragraph_a_bang [Some [sample_symbol ''a'', sample_symbol ''!'']]
       = Inr \<lparr>confidence = 9 / 10, word_count = 1, symbol_density = 1, line_breaks = 0,
              average_symbol_confidence = 9 / 10\<rparr>
   \<and> real (length (filter
              (\<lambda>symbol. \<not> py_isalnum ascii_alnum (get_or_empty (symbol_text symbol)))
              (symbols_of [Some [sample_symbol ''a'', sample_symbol ''!'']])))
       / real (length [Some [sample_symbol ''a'', sample_symbol ''!'']]) = 1"
proof -
  have h: "[Some [sample_symbol ''a'', sample_symbol ''!'']] \<noteq> []"
    by simp
  have s: "symbols_of [Some [sample_symbol ''a'', sample_symbol ''!'']] \<noteq> []"
    by (simp add: symbols_of_def get_or_empty_def)
  show ?thesis
    using s entry_a_bang symbol_density_per_word [OF h, of ascii_alnum paragraph_a_bang]
    by auto
qed

text \<open>
  C3: the average symbol confidence is never computed by a division by zero. The source
  divides by the symbol count without a guard: a paragraph whose only word has no
  symbols raises the division error, and the handler then drops every paragraph of the
  page, also the one recorded before.
\<close>

theorem zero_symbols_divides_by_zero:
  "paragraph_entry ascii_alnum paragraph_empty_word
     (get_or_empty (paragraph_words paragraph_empty_word)) = Inl ZeroDivisionError
   \<and> length (process_image ascii_alnum (response_of [paragraph_a_bang])) = 1
   \<and> process_image ascii_alnum (response_of [paragraph_a_bang, paragraph_empty_word]) = []"
  by (simp add: process_a_bang process_a_bang_empty_word)
     (simp add: paragraph_empty_word_def get_or_empty_def paragraph_entry_def symbols_of_def
        py_truediv_def)

text \<open>
  C8: the i-th page feature set of the extracted document is the extraction result of
  the i-th page image, whatever the completion order. The source collects the results in
  completion order: when the second of two pages finishes first, its features come
  first.
\<close>

theorem completion_order_decides_page_order:
  "is_completion_order [1, 0] sample_images
   \<and> extract_handwriting_features ascii_alnum id [1, 0] sample_images
       = [process_image ascii_alnum (sample_images ! 1),
          process_image ascii_alnum (sample_images ! 0)]
   \<and> extract_handwriting_features ascii_alnum id [1, 0] sample_images ! 0 = []
   \<and> process_image ascii_alnum (sample_images ! 0)
       = [\<lparr>confidence = 9 / 10, word_count = 1, symbol_density = 1, line_breaks = 0,
           average_symbol_confidence = 9 / 10\<rparr>]
   \<and> extract_handwriting_features ascii_alnum id [1, 0] sample_images ! 0
       \<noteq> process_image ascii_alnum (sample_images ! 0)"
proof -
  have p0: "process_image ascii_alnum (sample_images ! 0)
      = [\<lparr>confidence = 9 / 10, word_count = 1, symbol_density = 1, line_breaks = 0,
          average_symbol_confidence = 9 / 10\<rparr>]"
    using process_a_bang by (simp add: sample_images_def)
  have p1: "process_image ascii_alnum (sample_images ! 1) = []"
    by (simp add: sample_images_def process_image_def)
  have o: "is_completion_order [1, 0] sample_images"
    by (auto simp: is_completion_order_def sample_images_def)
  have e: "extract_handwriting_features ascii_alnum id [1, 0] sample_images
      = [process_image ascii_alnum (sample_images ! 1),
         process_image ascii_alnum (sample_images ! 0)]"
    by (simp add: extract_handwriting_features_def)
  show ?thesis
    unfolding e p0 p1 using o by simp
qed

end
